theory Spec2Isabelle
  imports Complex_Main "HOL-Library.Word"
begin

section \<open>X-ray image processing: the calibration pipeline of main.cpp\<close>

text \<open>
  The program reads a grid of raw detector readings, calibrates it (\<open>process_data\<close>) and
  renders the calibrated grid as two bitmaps (\<open>create_and_save_image\<close>,
  \<open>calculate_and_save_thickness\<close>). This theory embeds these three functions.
\<close>

subsection \<open>The C++ type double\<close>

text \<open>
  A \<open>double\<close> is a finite number, an infinity or NaN. The special values are modelled
  as IEEE 754 defines them, since the pipeline divides without a zero guard. The finite
  operations \<open>dadd\<close>, \<open>dmul\<close> and \<open>ddiv\<close>, which \<open>process_data\<close> uses, are exact: they
  neither round nor overflow to an infinity. The product of the two image functions,
  which a conversion to an integer follows, is the rounded one (\<open>fmul\<close>, further down).
  Every zero is the positive zero: the pipeline starts from non-negative integers and
  never negates, so it cannot produce a negative zero.
\<close>

datatype double = Fin real | PInf | NInf | NaN

fun dadd :: "double \<Rightarrow> double \<Rightarrow> double" where
  "dadd (Fin x) (Fin y) = Fin (x + y)"
| "dadd NaN b = NaN"
| "dadd a NaN = NaN"
| "dadd PInf NInf = NaN"
| "dadd NInf PInf = NaN"
| "dadd PInf b = PInf"
| "dadd a PInf = PInf"
| "dadd NInf b = NInf"
| "dadd a NInf = NInf"

fun dmul :: "double \<Rightarrow> double \<Rightarrow> double" where
  "dmul (Fin x) (Fin y) = Fin (x * y)"
| "dmul NaN b = NaN"
| "dmul a NaN = NaN"
| "dmul PInf (Fin y) = (if 0 < y then PInf else if y < 0 then NInf else NaN)"
| "dmul NInf (Fin y) = (if 0 < y then NInf else if y < 0 then PInf else NaN)"
| "dmul (Fin x) PInf = (if 0 < x then PInf else if x < 0 then NInf else NaN)"
| "dmul (Fin x) NInf = (if 0 < x then NInf else if x < 0 then PInf else NaN)"
| "dmul PInf PInf = PInf"
| "dmul NInf NInf = PInf"
| "dmul PInf NInf = NInf"
| "dmul NInf PInf = NInf"

fun ddiv :: "double \<Rightarrow> double \<Rightarrow> double" where
  "ddiv (Fin x) (Fin y) =
     (if y \<noteq> 0 then Fin (x / y)
      else if 0 < x then PInf else if x < 0 then NInf else NaN)"
| "ddiv NaN b = NaN"
| "ddiv a NaN = NaN"
| "ddiv (Fin x) PInf = Fin 0"
| "ddiv (Fin x) NInf = Fin 0"
| "ddiv PInf (Fin y) = (if 0 \<le> y then PInf else NInf)"
| "ddiv NInf (Fin y) = (if 0 \<le> y then NInf else PInf)"
| "ddiv PInf b = NaN"
| "ddiv NInf b = NaN"

text \<open>The comparisons \<open>a > b\<close> and \<open>a != 0\<close>; every ordered comparison with NaN is false.\<close>

fun dgt :: "double \<Rightarrow> double \<Rightarrow> bool" where
  "dgt (Fin x) (Fin y) = (y < x)"
| "dgt NaN b = False"
| "dgt a NaN = False"
| "dgt NInf b = False"
| "dgt a PInf = False"
| "dgt PInf b = True"
| "dgt a NInf = True"

fun dne0 :: "double \<Rightarrow> bool" where
  "dne0 (Fin x) = (x \<noteq> 0)"
| "dne0 a = True"

text \<open>\<open>a <= b\<close> and \<open>a >= b\<close>, used to state bounds on values.\<close>

fun dle :: "double \<Rightarrow> double \<Rightarrow> bool" where
  "dle (Fin x) (Fin y) = (x \<le> y)"
| "dle NaN b = False"
| "dle a NaN = False"
| "dle NInf b = True"
| "dle a PInf = True"
| "dle PInf b = False"
| "dle a NInf = False"

subsection \<open>Constants and the pixel struct\<close>

definition SIGNAL_THRESHOLD :: int where "SIGNAL_THRESHOLD = 2048"
definition BETA_THORNE_ROWS_COUNT :: nat where "BETA_THORNE_ROWS_COUNT = 15"
definition MEDIAN_DETECTOR_COUNT :: nat where "MEDIAN_DETECTOR_COUNT = 50"

text \<open>The struct \<open>PixelData\<close>; its field \<open>value\<close> is \<open>val\<close> here.\<close>

record PixelData =
  val :: double
  is_calibrated :: bool

type_synonym grid = "PixelData list list"

text \<open>
  A rectangular grid of \<open>m\<close> rows and \<open>n\<close> columns, as \<open>read_data_from_file\<close> builds the
  raw one and \<open>process_data\<close> the processed one. The sizes \<open>m\<close> and \<open>n\<close> (\<open>unsigned\<close> in
  the source, read from \<open>size()\<close>) are natural numbers; a raw reading (\<open>int\<close> in the
  source) is an integer.
\<close>

definition dims :: "'a list list \<Rightarrow> nat \<Rightarrow> nat \<Rightarrow> bool" where
  "dims g m n = (length g = m \<and> list_all (\<lambda>r. length r = n) g)"

subsection \<open>process\_data\<close>

text \<open>The assignment \<open>g[i][j] = f(g[i][j])\<close>.\<close>

definition upd_cell :: "grid \<Rightarrow> nat \<Rightarrow> nat \<Rightarrow> (PixelData \<Rightarrow> PixelData) \<Rightarrow> grid" where
  "upd_cell g i j f = g[i := (g ! i)[j := f (g ! i ! j)]]"

text \<open>
  The loop nest \<open>for i < m: for j < n: g[i][j] = body(i, j, g[i][j])\<close>, which
  \<open>process_data\<close> runs three times.
\<close>

definition for_each_cell ::
  "nat \<Rightarrow> nat \<Rightarrow> (nat \<Rightarrow> nat \<Rightarrow> PixelData \<Rightarrow> PixelData) \<Rightarrow> grid \<Rightarrow> grid" where
  "for_each_cell m n body g =
     fold (\<lambda>i g. fold (\<lambda>j g. upd_cell g i j (body i j)) [0..<n] g) [0..<m] g"

text \<open>
  Background normalization (lines 143-152). The reading is an \<open>int\<close>; the subtraction runs
  only above the threshold, so it cannot overflow.
\<close>

definition background :: "int list list \<Rightarrow> nat \<Rightarrow> nat \<Rightarrow> PixelData \<Rightarrow> PixelData" where
  "background data i j c =
     (if data ! i ! j > SIGNAL_THRESHOLD
      then c\<lparr>val := Fin (real_of_int (data ! i ! j - SIGNAL_THRESHOLD))\<rparr>
      else c\<lparr>val := Fin 0\<rparr>)\<lparr>is_calibrated := False\<rparr>"

text \<open>
  Lines 159-166: for column \<open>j\<close>, the inner loop sums the last rows and marks them; the
  outer loop stores \<open>sum / BETA_THORNE_ROWS_COUNT\<close> in \<open>median_betathrone[j]\<close>. The loop
  runs only after the check of line 155, so \<open>m - BETA_THORNE_ROWS_COUNT\<close> does not wrap
  (and likewise \<open>n - MEDIAN_DETECTOR_COUNT\<close> below, after the check of line 184).
\<close>

definition beta_thorne_column :: "nat \<Rightarrow> nat \<Rightarrow> grid \<Rightarrow> double \<times> grid" where
  "beta_thorne_column m j g =
     fold (\<lambda>i (s, g). (dadd s (val (g ! i ! j)), upd_cell g i j (\<lambda>c. c\<lparr>is_calibrated := True\<rparr>)))
       [m - BETA_THORNE_ROWS_COUNT..<m] (Fin 0, g)"

definition beta_thorne :: "nat \<Rightarrow> nat \<Rightarrow> grid \<Rightarrow> double list \<times> grid" where
  "beta_thorne m n g =
     fold (\<lambda>j (med, g).
            (case beta_thorne_column m j g of
               (s, g') \<Rightarrow> (med[j := ddiv s (Fin (real BETA_THORNE_ROWS_COUNT))], g')))
       [0..<n] (replicate n (Fin 0), g)"

text \<open>\<open>std::accumulate(begin, end, 0.0)\<close>.\<close>

definition accumulate :: "double list \<Rightarrow> double" where
  "accumulate xs = fold (\<lambda>x acc. dadd acc x) xs (Fin 0)"

text \<open>The body of the loop of lines 169-181.\<close>

definition proportion :: "double list \<Rightarrow> double \<Rightarrow> nat \<Rightarrow> nat \<Rightarrow> PixelData \<Rightarrow> PixelData" where
  "proportion median_betathrone overall_median i j c =
     (if \<not> is_calibrated c then
        (if dne0 (median_betathrone ! j)
         then c\<lparr>val := dmul (val c) (ddiv overall_median (median_betathrone ! j))\<rparr>
         else c\<lparr>val := Fin 0\<rparr>)
      else c)"

text \<open>Lines 188-197: the sum over the last columns of row \<open>i\<close>, and \<open>median_detector\<close>.\<close>

definition detector_row :: "nat \<Rightarrow> nat \<Rightarrow> grid \<Rightarrow> double \<times> grid" where
  "detector_row n i g =
     fold (\<lambda>j (s, g).
            if \<not> is_calibrated (g ! i ! j)
            then (dadd s (val (g ! i ! j)), upd_cell g i j (\<lambda>c. c\<lparr>is_calibrated := True\<rparr>))
            else (s, g))
       [n - MEDIAN_DETECTOR_COUNT..<n] (Fin 0, g)"

definition detector :: "nat \<Rightarrow> nat \<Rightarrow> grid \<Rightarrow> double list \<times> grid" where
  "detector m n g =
     fold (\<lambda>i (med, g).
            (case detector_row n i g of
               (s, g') \<Rightarrow> (med[i := ddiv s (Fin (real MEDIAN_DETECTOR_COUNT))], g')))
       [0..<m] (replicate m (Fin 0), g)"

text \<open>The body of the loop of lines 199-208: the division, then the clamp.\<close>

definition divide_clamp :: "double list \<Rightarrow> nat \<Rightarrow> nat \<Rightarrow> PixelData \<Rightarrow> PixelData" where
  "divide_clamp median_detector i j c =
     (let c' = (if \<not> is_calibrated c
                then c\<lparr>val := ddiv (val c) (median_detector ! i)\<rparr> else c)
      in if dgt (val c') (Fin 1) then c'\<lparr>val := Fin 1\<rparr> else c')"

text \<open>
  The function, in the order of its body. Its two \<open>throw\<close> statements are the two errors.
  The source reads \<open>data[0]\<close> and \<open>data[i][j]\<close> unchecked: the properties below are about
  rectangular grids with at least one row, where these reads are in range.
\<close>

datatype error = NotEnoughRows | NotEnoughColumns

definition process_data :: "int list list \<Rightarrow> error + grid" where
  "process_data data =
     (let m = length data; n = length (data ! 0);
          processed_data = for_each_cell m n (background data)
            (replicate m (replicate n \<lparr>val = Fin 0, is_calibrated = False\<rparr>))
      in if m < BETA_THORNE_ROWS_COUNT then Inl NotEnoughRows
         else
           let (median_betathrone, processed_data) = beta_thorne m n processed_data;
               overall_median = ddiv (accumulate median_betathrone) (Fin (real n));
               processed_data =
                 for_each_cell m n (proportion median_betathrone overall_median) processed_data
           in if n < MEDIAN_DETECTOR_COUNT then Inl NotEnoughColumns
              else
                let (median_detector, processed_data) = detector m n processed_data
                in Inr (for_each_cell m n (divide_clamp median_detector) processed_data))"

text \<open>
  The values \<open>process_data\<close> computes on its way, as functions of the raw grid: the grid
  after the background normalization (\<open>stage1\<close>), \<open>median_betathrone\<close> (\<open>row_ref\<close>),
  the grid after the loop of lines 159-166 (\<open>rows_marked\<close>), \<open>overall_median\<close>
  (\<open>overall_row_ref\<close>), the grid after the loop of lines 169-181
  (\<open>stage2\<close>), \<open>median_detector\<close> (\<open>col_ref\<close>) and the grid after the loop of lines
  188-197 (\<open>stage3\<close>).
\<close>

definition stage1 :: "int list list \<Rightarrow> grid" where
  "stage1 data =
     (let m = length data; n = length (data ! 0)
      in for_each_cell m n (background data)
           (replicate m (replicate n \<lparr>val = Fin 0, is_calibrated = False\<rparr>)))"

definition row_ref :: "int list list \<Rightarrow> double list" where
  "row_ref data = fst (beta_thorne (length data) (length (data ! 0)) (stage1 data))"

definition overall_row_ref :: "int list list \<Rightarrow> double" where
  "overall_row_ref data = ddiv (accumulate (row_ref data)) (Fin (real (length (data ! 0))))"

definition rows_marked :: "int list list \<Rightarrow> grid" where
  "rows_marked data = snd (beta_thorne (length data) (length (data ! 0)) (stage1 data))"

definition stage2 :: "int list list \<Rightarrow> grid" where
  "stage2 data =
     (let m = length data; n = length (data ! 0)
      in for_each_cell m n (proportion (row_ref data) (overall_row_ref data))
           (rows_marked data))"

definition col_ref :: "int list list \<Rightarrow> double list" where
  "col_ref data = fst (detector (length data) (length (data ! 0)) (stage2 data))"

definition stage3 :: "int list list \<Rightarrow> grid" where
  "stage3 data = snd (detector (length data) (length (data ! 0)) (stage2 data))"

subsection \<open>The loops' results in closed form\<close>

text \<open>
  The sums the two reference loops compute, as folds over the indices: the values of
  column \<open>j\<close> over the rows \<open>a..<b\<close>, and the values of the cells of row \<open>i\<close> over the
  columns \<open>a..<b\<close> that are not calibrated.
\<close>

definition column_sum :: "grid \<Rightarrow> nat \<Rightarrow> nat \<Rightarrow> nat \<Rightarrow> double" where
  "column_sum g a b j = fold (\<lambda>i s. dadd s (val (g ! i ! j))) [a..<b] (Fin 0)"

definition row_sum :: "grid \<Rightarrow> nat \<Rightarrow> nat \<Rightarrow> nat \<Rightarrow> double" where
  "row_sum g a b i =
     fold (\<lambda>j s. if \<not> is_calibrated (g ! i ! j) then dadd s (val (g ! i ! j)) else s) [a..<b] (Fin 0)"

text \<open>
  The numbers behind the intermediate values: the background-subtracted reading \<open>bg\<close>,
  the row reference \<open>rr\<close> of a column, their mean \<open>ov\<close>, the scaled value \<open>s2\<close> of a cell
  above the reference rows, and the column reference \<open>cr\<close> of a row.
\<close>

definition bg :: "int \<Rightarrow> real" where
  "bg x = (if x > SIGNAL_THRESHOLD then real_of_int (x - SIGNAL_THRESHOLD) else 0)"

definition rr :: "int list list \<Rightarrow> nat \<Rightarrow> real" where
  "rr data j =
     (\<Sum>i = length data - BETA_THORNE_ROWS_COUNT..<length data. bg (data ! i ! j))
       / real BETA_THORNE_ROWS_COUNT"

definition ov :: "int list list \<Rightarrow> real" where
  "ov data = (\<Sum>j < length (data ! 0). rr data j) / real (length (data ! 0))"

definition s2 :: "int list list \<Rightarrow> nat \<Rightarrow> nat \<Rightarrow> real" where
  "s2 data i j = (if rr data j \<noteq> 0 then bg (data ! i ! j) * (ov data / rr data j) else 0)"

definition cr :: "int list list \<Rightarrow> nat \<Rightarrow> real" where
  "cr data i =
     (if length data - BETA_THORNE_ROWS_COUNT \<le> i then 0
      else (\<Sum>j = length (data ! 0) - MEDIAN_DETECTOR_COUNT..<length (data ! 0). s2 data i j))
       / real MEDIAN_DETECTOR_COUNT"

text \<open>The clamp of lines 204-206, on a value.\<close>

definition clamp1 :: "double \<Rightarrow> double" where
  "clamp1 d = (if dgt d (Fin 1) then Fin 1 else d)"

subsection \<open>Rounding to binary64\<close>

text \<open>
  In the two image functions a truncation or a rounding to an integer follows a product,
  and sees its last bit. There the product of two finite numbers is the exact product
  rounded to binary64 (\<open>b64\<close>): to the nearest multiple of the unit in the last place of
  a significand of 53 bits, a tie going to the even multiple (\<open>rne\<close>); the unit stops
  shrinking at \<open>2^-1074\<close> (the subnormal numbers), and a result of magnitude \<open>2^1024\<close> or
  more is an infinity.
\<close>

definition rne :: "real \<Rightarrow> int" where
  "rne z =
     (let f = \<lfloor>z\<rfloor>
      in if z - of_int f < 1 / 2 then f
         else if 1 / 2 < z - of_int f then f + 1
         else if even f then f else f + 1)"

definition b64 :: "real \<Rightarrow> double" where
  "b64 x =
     (if x = 0 then Fin 0
      else
        let e = max \<lfloor>log 2 \<bar>x\<bar>\<rfloor> (- 1022);
            u = 2 powr (of_int e - 52);
            y = of_int (rne (x / u)) * u
        in if 2 ^ 1024 \<le> \<bar>y\<bar> then (if 0 < x then PInf else NInf) else Fin y)"

definition fmul :: "double \<Rightarrow> double \<Rightarrow> double" where
  "fmul a b = (case dmul a b of Fin z \<Rightarrow> b64 z | d \<Rightarrow> d)"

subsection \<open>create\_and\_save\_image\<close>

text \<open>
  A conversion of a \<open>double\<close> to an integer type truncates toward zero, and is undefined
  when the truncated value does not fit the type (or the \<open>double\<close> is not finite):
  \<open>None\<close> here. \<open>to_uchar\<close> is \<open>static_cast<unsigned char>\<close> and \<open>to_int\<close> is
  \<open>static_cast<int>\<close>, an \<open>int\<close> of 32 bits.
\<close>

definition trunc :: "real \<Rightarrow> int" where
  "trunc x = (if 0 \<le> x then \<lfloor>x\<rfloor> else \<lceil>x\<rceil>)"

definition to_uchar :: "double \<Rightarrow> 8 word option" where
  "to_uchar d =
     (case d of
        Fin x \<Rightarrow> if 0 \<le> trunc x \<and> trunc x \<le> 255 then Some (word_of_int (trunc x)) else None
      | _ \<Rightarrow> None)"

definition to_int :: "double \<Rightarrow> int option" where
  "to_int d =
     (case d of
        Fin x \<Rightarrow> if - (2 ^ 31) \<le> trunc x \<and> trunc x < 2 ^ 31 then Some (trunc x) else None
      | _ \<Rightarrow> None)"

text \<open>The three bytes of a pixel: \<open>image[pixel_index + 0]\<close>, \<open>+ 1\<close> and \<open>+ 2\<close>.\<close>

record bgr =
  blue :: "8 word"
  green :: "8 word"
  red :: "8 word"

text \<open>The body of the loop of lines 217-231, for one cell.\<close>

definition normalized_pixel :: "PixelData \<Rightarrow> bgr option" where
  "normalized_pixel c =
     (if is_calibrated c then Some \<lparr>blue = 0, green = 0, red = 255\<rparr>
      else
        (case to_uchar (fmul (val c) (Fin 255)) of
           None \<Rightarrow> None
         | Some color_value \<Rightarrow>
             Some \<lparr>blue = color_value, green = color_value, red = color_value\<rparr>))"

subsection \<open>calculate\_and\_save\_thickness\<close>

text \<open>
  \<open>std::log\<close> is library code, and how it rounds is the library's business: the
  \<open>double\<close> it returns for a positive finite argument is the parameter \<open>std_log\<close>. At the
  other arguments the result is the one the C standard fixes. Then the unary minus and
  \<open>std::round\<close> (halves away from zero).
\<close>

definition clog :: "(real \<Rightarrow> double) \<Rightarrow> double \<Rightarrow> double" where
  "clog std_log v =
     (case v of
        Fin x \<Rightarrow> if 0 < x then std_log x else if x = 0 then NInf else NaN
      | PInf \<Rightarrow> PInf
      | NInf \<Rightarrow> NaN
      | NaN \<Rightarrow> NaN)"

fun dneg :: "double \<Rightarrow> double" where
  "dneg (Fin x) = Fin (- x)"
| "dneg PInf = NInf"
| "dneg NInf = PInf"
| "dneg NaN = NaN"

fun dround :: "double \<Rightarrow> double" where
  "dround (Fin x) = Fin (of_int (if 0 \<le> x then \<lfloor>x + 1 / 2\<rfloor> else \<lceil>x - 1 / 2\<rceil>))"
| "dround d = d"

text \<open>The body of the loop of lines 244-256, for one cell: the byte of its three channels.\<close>

definition thickness_byte :: "(real \<Rightarrow> double) \<Rightarrow> PixelData \<Rightarrow> 8 word option" where
  "thickness_byte std_log c =
     (let v = val c;
          t = (if dgt v (Fin 0) then dneg (clog std_log v) else Fin 10)
      in case to_int (dround (fmul t (Fin 25))) of
           None \<Rightarrow> None
         | Some iv \<Rightarrow>
             (let iv = (if iv < 0 then 0 else iv);
                  iv = (if iv > 255 then 255 else iv)
              in Some (word_of_int iv)))"

text \<open>
  The byte as the specification words it, from the product \<open>p = t * 25.0\<close>: \<open>p\<close> rounded
  to the nearest integer and clamped to 0..255.
\<close>

definition round_clamp :: "real \<Rightarrow> int" where
  "round_clamp p = max 0 (min 255 (round p))"

subsection \<open>The image vectors\<close>

text \<open>
  Both functions fill the vector \<open>image\<close> of \<open>m * n * BYTES_PER_PIXEL\<close> bytes, three
  bytes per cell at \<open>pixel_index = (i * n + j) * BYTES_PER_PIXEL\<close>, and hand it to
  \<open>generateBitmapImage\<close>, which writes the file. \<open>render\<close> is their common loop nest over
  the pixel of a cell; the result is \<open>None\<close> when a conversion in some cell is undefined.
  Its index arithmetic is on \<open>nat\<close>: an image of more than \<open>2^32 / 3\<close> cells, where the
  \<open>unsigned\<close> arithmetic of the source wraps, is beyond the model.
\<close>

definition BYTES_PER_PIXEL :: nat where "BYTES_PER_PIXEL = 3"

definition set_pixel :: "8 word list \<Rightarrow> nat \<Rightarrow> bgr \<Rightarrow> 8 word list" where
  "set_pixel bytes pixel_index p =
     bytes[pixel_index + 2 := red p, pixel_index + 1 := green p, pixel_index + 0 := blue p]"

definition render :: "(PixelData \<Rightarrow> bgr option) \<Rightarrow> grid \<Rightarrow> 8 word list option" where
  "render pixel data =
     (let m = length data; n = length (data ! 0)
      in fold (\<lambda>i. fold (\<lambda>j bytes.
                 case bytes of
                   None \<Rightarrow> None
                 | Some bytes \<Rightarrow>
                     (case pixel (data ! i ! j) of
                        None \<Rightarrow> None
                      | Some p \<Rightarrow> Some (set_pixel bytes ((i * n + j) * BYTES_PER_PIXEL) p)))
                 [0..<n])
           [0..<m] (Some (replicate (m * n * BYTES_PER_PIXEL) 0)))"

definition gray :: "8 word \<Rightarrow> bgr" where
  "gray color_value = \<lparr>blue = color_value, green = color_value, red = color_value\<rparr>"

definition create_and_save_image :: "grid \<Rightarrow> 8 word list option" where
  "create_and_save_image data = render normalized_pixel data"

definition calculate_and_save_thickness ::
  "(real \<Rightarrow> double) \<Rightarrow> grid \<Rightarrow> 8 word list option" where
  "calculate_and_save_thickness std_log data =
     render (\<lambda>c. map_option gray (thickness_byte std_log c)) data"

text \<open>The three bytes of the cell with number \<open>q = i * n + j\<close> in an image vector.\<close>

definition pixel_at :: "8 word list \<Rightarrow> nat \<Rightarrow> bgr" where
  "pixel_at bytes q =
     \<lparr>blue = bytes ! (q * BYTES_PER_PIXEL), green = bytes ! (q * BYTES_PER_PIXEL + 1),
      red = bytes ! (q * BYTES_PER_PIXEL + 2)\<rparr>"

subsection \<open>Example grids\<close>

text \<open>
  Raw grids for the concrete cases below: a constant grid above the threshold, a grid of
  zeros, a grid whose reference rows are all zero under a first row of 3000, a grid whose
  last column alone is above the threshold, and a grid whose first row is twice as bright
  in the detector columns as in its first cell.
\<close>

definition grid_uniform :: "int list list" where
  "grid_uniform = replicate 16 (replicate 51 3000)"

definition grid_zero :: "int list list" where
  "grid_zero = replicate 16 (replicate 51 0)"

definition grid_zero_refs :: "int list list" where
  "grid_zero_refs = replicate 50 3000 # replicate 15 (replicate 50 0)"

definition grid_last_column :: "int list list" where
  "grid_last_column = replicate 16 (replicate 49 0 @ [2049])"

definition grid_half :: "int list list" where
  "grid_half = (2049 # replicate 50 2050) # replicate 15 (replicate 51 2049)"

section \<open>Properties\<close>

subsection \<open>The loops\<close>

lemma dims_nth: "dims g m n \<Longrightarrow> i < m \<Longrightarrow> length (g ! i) = n"
  by (simp add: dims_def list_all_length)

lemma dims_length: "dims g m n \<Longrightarrow> length g = m"
  by (simp add: dims_def)

lemma dims_upd_cell: "dims g m n \<Longrightarrow> dims (upd_cell g i j f) m n"
  by (cases "i < length g") (auto simp: dims_def upd_cell_def list_all_length nth_list_update)

lemma nth_upd_cell:
  "dims g m n \<Longrightarrow> i < m \<Longrightarrow> j < n \<Longrightarrow> i' < m \<Longrightarrow> j' < n \<Longrightarrow>
   upd_cell g i j f ! i' ! j' = (if i' = i \<and> j' = j then f (g ! i ! j) else g ! i' ! j')"
  by (auto simp: dims_def upd_cell_def list_all_length nth_list_update)

lemma row_loop:
  "dims g m n \<Longrightarrow> i < m \<Longrightarrow> k \<le> n \<Longrightarrow>
   dims (fold (\<lambda>j g. upd_cell g i j (body j)) [0..<k] g) m n \<and>
   (\<forall>i' < m. \<forall>j' < n. fold (\<lambda>j g. upd_cell g i j (body j)) [0..<k] g ! i' ! j' =
      (if i' = i \<and> j' < k then body j' (g ! i' ! j') else g ! i' ! j'))"
proof (induction k)
  case 0
  then show ?case by simp
next
  case (Suc k)
  then show ?case
    by (auto simp: dims_upd_cell nth_upd_cell less_Suc_eq)
qed

lemma cell_loop:
  "dims g m n \<Longrightarrow> k \<le> m \<Longrightarrow>
   dims (fold (\<lambda>i g. fold (\<lambda>j g. upd_cell g i j (body i j)) [0..<n] g) [0..<k] g) m n \<and>
   (\<forall>i' < m. \<forall>j' < n. fold (\<lambda>i g. fold (\<lambda>j g. upd_cell g i j (body i j)) [0..<n] g) [0..<k] g ! i' ! j' =
      (if i' < k then body i' j' (g ! i' ! j') else g ! i' ! j'))"
proof (induction k)
  case 0
  then show ?case by simp
next
  case (Suc k)
  let ?h = "fold (\<lambda>i g. fold (\<lambda>j g. upd_cell g i j (body i j)) [0..<n] g) [0..<k] g"
  from Suc have ih: "dims ?h m n" 
    "\<forall>i' < m. \<forall>j' < n. ?h ! i' ! j' = (if i' < k then body i' j' (g ! i' ! j') else g ! i' ! j')"
    by simp_all
  from Suc.prems have km: "k < m" by simp
  note rl = row_loop[OF ih(1) km order_refl, of "body k"]
  show ?case using rl ih(2) km
    by (auto simp: less_Suc_eq)
qed

lemma dims_for_each_cell: "dims g m n \<Longrightarrow> dims (for_each_cell m n body g) m n"
  using cell_loop[of g m n m body] by (simp add: for_each_cell_def)

lemma nth_for_each_cell:
  "dims g m n \<Longrightarrow> i < m \<Longrightarrow> j < n \<Longrightarrow> for_each_cell m n body g ! i ! j = body i j (g ! i ! j)"
  using cell_loop[of g m n m body] by (simp add: for_each_cell_def)

lemma beta_column_loop:
  assumes "dims g m n" "j < n" "k \<le> m"
  defines "F \<equiv> (\<lambda>i (s, g). (dadd s (val (g ! i ! j)), upd_cell g i j (\<lambda>c. c\<lparr>is_calibrated := True\<rparr>)))"
  shows "fst (fold F [a..<k] (s0, g)) = fold (\<lambda>i s. dadd s (val (g ! i ! j))) [a..<k] s0 \<and>
         dims (snd (fold F [a..<k] (s0, g))) m n \<and>
         (\<forall>i' < m. \<forall>j' < n. snd (fold F [a..<k] (s0, g)) ! i' ! j' =
            (if j' = j \<and> a \<le> i' \<and> i' < k then (g ! i' ! j')\<lparr>is_calibrated := True\<rparr> else g ! i' ! j'))"
  using assms(3)
proof (induction k)
  case 0
  then show ?case using assms(1) by simp
next
  case (Suc k)
  show ?case
  proof (cases "a \<le> k")
    case False
    then show ?thesis using assms(1) by auto
  next
    case True
    from Suc have ih: "fst (fold F [a..<k] (s0, g)) = fold (\<lambda>i s. dadd s (val (g ! i ! j))) [a..<k] s0"
      "dims (snd (fold F [a..<k] (s0, g))) m n"
      "\<forall>i' < m. \<forall>j' < n. snd (fold F [a..<k] (s0, g)) ! i' ! j' =
            (if j' = j \<and> a \<le> i' \<and> i' < k then (g ! i' ! j')\<lparr>is_calibrated := True\<rparr> else g ! i' ! j')"
      by simp_all
    from Suc.prems have km: "k < m" by simp
    have step: "fold F [a..<Suc k] (s0, g) = F k (fold F [a..<k] (s0, g))"
      using True by simp
    show ?thesis
      unfolding step using ih km assms(2) True
      by (auto simp: F_def split_beta dims_upd_cell nth_upd_cell less_Suc_eq)
  qed
qed

lemma beta_thorne_column_eq:
  assumes "dims g m n" "j < n"
  shows "fst (beta_thorne_column m j g) = column_sum g (m - BETA_THORNE_ROWS_COUNT) m j"
    and "dims (snd (beta_thorne_column m j g)) m n"
    and "i' < m \<Longrightarrow> j' < n \<Longrightarrow> snd (beta_thorne_column m j g) ! i' ! j' =
            (if j' = j \<and> m - BETA_THORNE_ROWS_COUNT \<le> i'
             then (g ! i' ! j')\<lparr>is_calibrated := True\<rparr> else g ! i' ! j')"
  using beta_column_loop[OF assms order_refl, of "m - BETA_THORNE_ROWS_COUNT" "Fin 0"]
  by (simp_all add: beta_thorne_column_def column_sum_def)

lemma column_sum_cong:
  "(\<And>i. a \<le> i \<Longrightarrow> i < b \<Longrightarrow> val (g ! i ! j) = val (h ! i ! j)) \<Longrightarrow>
   column_sum g a b j = column_sum h a b j"
  unfolding column_sum_def by (rule fold_cong) auto

lemma beta_loop:
  assumes "dims g m n" "k \<le> n"
  defines "F \<equiv> (\<lambda>j (med, g).
            (case beta_thorne_column m j g of
               (s, g') \<Rightarrow> (med[j := ddiv s (Fin (real BETA_THORNE_ROWS_COUNT))], g')))"
  defines "R \<equiv> fold F [0..<k] (replicate n (Fin 0), g)"
  shows "length (fst R) = n \<and>
         (\<forall>j' < n. fst R ! j' =
            (if j' < k then ddiv (column_sum g (m - BETA_THORNE_ROWS_COUNT) m j')
                              (Fin (real BETA_THORNE_ROWS_COUNT)) else Fin 0)) \<and>
         dims (snd R) m n \<and>
         (\<forall>i' < m. \<forall>j' < n. snd R ! i' ! j' =
            (if j' < k \<and> m - BETA_THORNE_ROWS_COUNT \<le> i'
             then (g ! i' ! j')\<lparr>is_calibrated := True\<rparr> else g ! i' ! j'))"
  using assms(2) unfolding R_def
proof (induction k)
  case 0
  then show ?case using assms(1) by simp
next
  case (Suc k)
  let ?R = "fold F [0..<k] (replicate n (Fin 0), g)"
  from Suc have ih: "length (fst ?R) = n"
    "\<forall>j' < n. fst ?R ! j' =
            (if j' < k then ddiv (column_sum g (m - BETA_THORNE_ROWS_COUNT) m j')
                              (Fin (real BETA_THORNE_ROWS_COUNT)) else Fin 0)"
    "dims (snd ?R) m n"
    "\<forall>i' < m. \<forall>j' < n. snd ?R ! i' ! j' =
            (if j' < k \<and> m - BETA_THORNE_ROWS_COUNT \<le> i'
             then (g ! i' ! j')\<lparr>is_calibrated := True\<rparr> else g ! i' ! j')"
    by simp_all
  from Suc.prems have kn: "k < n" by simp
  note col = beta_thorne_column_eq[OF ih(3) kn]
  have cs: "column_sum (snd ?R) (m - BETA_THORNE_ROWS_COUNT) m k
            = column_sum g (m - BETA_THORNE_ROWS_COUNT) m k"
    by (rule column_sum_cong) (use ih(4) kn in simp)
  have step: "fold F [0..<Suc k] (replicate n (Fin 0), g) = F k ?R" by simp
  have R': "F k ?R = ((fst ?R)[k := ddiv (fst (beta_thorne_column m k (snd ?R)))
                        (Fin (real BETA_THORNE_ROWS_COUNT))], snd (beta_thorne_column m k (snd ?R)))"
    by (simp add: F_def split_beta)
  show ?case
    unfolding step R' using ih kn col cs
    by (auto simp: nth_list_update less_Suc_eq)
qed

lemma beta_thorne_eq:
  assumes "dims g m n"
  shows "length (fst (beta_thorne m n g)) = n"
    and "j < n \<Longrightarrow> fst (beta_thorne m n g) ! j =
           ddiv (column_sum g (m - BETA_THORNE_ROWS_COUNT) m j) (Fin (real BETA_THORNE_ROWS_COUNT))"
    and "dims (snd (beta_thorne m n g)) m n"
    and "i < m \<Longrightarrow> j < n \<Longrightarrow> snd (beta_thorne m n g) ! i ! j =
            (if m - BETA_THORNE_ROWS_COUNT \<le> i
             then (g ! i ! j)\<lparr>is_calibrated := True\<rparr> else g ! i ! j)"
  using beta_loop[OF assms order_refl] by (simp_all add: beta_thorne_def)

lemma detector_row_loop:
  assumes "dims g m n" "i < m" "k \<le> n"
  defines "F \<equiv> (\<lambda>j (s, g).
            if \<not> is_calibrated (g ! i ! j)
            then (dadd s (val (g ! i ! j)), upd_cell g i j (\<lambda>c. c\<lparr>is_calibrated := True\<rparr>))
            else (s, g))"
  shows "fst (fold F [a..<k] (s0, g)) =
           fold (\<lambda>j s. if \<not> is_calibrated (g ! i ! j) then dadd s (val (g ! i ! j)) else s) [a..<k] s0 \<and>
         dims (snd (fold F [a..<k] (s0, g))) m n \<and>
         (\<forall>i' < m. \<forall>j' < n. snd (fold F [a..<k] (s0, g)) ! i' ! j' =
            (if i' = i \<and> a \<le> j' \<and> j' < k then (g ! i' ! j')\<lparr>is_calibrated := True\<rparr> else g ! i' ! j'))"
  using assms(3)
proof (induction k)
  case 0
  then show ?case using assms(1) by simp
next
  case (Suc k)
  show ?case
  proof (cases "a \<le> k")
    case False
    then show ?thesis using assms(1) by auto
  next
    case True
    let ?R = "fold F [a..<k] (s0, g)"
    from Suc have ih: "fst ?R = fold (\<lambda>j s. if \<not> is_calibrated (g ! i ! j) then dadd s (val (g ! i ! j)) else s) [a..<k] s0"
      "dims (snd ?R) m n"
      "\<forall>i' < m. \<forall>j' < n. snd ?R ! i' ! j' =
            (if i' = i \<and> a \<le> j' \<and> j' < k then (g ! i' ! j')\<lparr>is_calibrated := True\<rparr> else g ! i' ! j')"
      by simp_all
    from Suc.prems have kn: "k < n" by simp
    have here: "snd ?R ! i ! k = g ! i ! k"
      using ih(3) assms(2) kn by simp
    have step: "fold F [a..<Suc k] (s0, g) = F k ?R"
      using True by simp
    have Fk: "F k p = (if \<not> is_calibrated (snd p ! i ! k)
                       then (dadd (fst p) (val (snd p ! i ! k)),
                             upd_cell (snd p) i k (\<lambda>c. c\<lparr>is_calibrated := True\<rparr>))
                       else p)" for p
      by (simp add: F_def split_beta)
    have R': "F k ?R = (if \<not> is_calibrated (g ! i ! k)
                       then (dadd (fst ?R) (val (g ! i ! k)),
                             upd_cell (snd ?R) i k (\<lambda>c. c\<lparr>is_calibrated := True\<rparr>))
                       else ?R)"
      by (simp only: Fk here)
    show ?thesis
    proof (cases "is_calibrated (g ! i ! k)")
      case cal: True
      then show ?thesis
        unfolding step R' using ih kn assms(2) True
        by (auto simp: less_Suc_eq)
    next
      case cal: False
      then show ?thesis
        unfolding step R' using ih kn assms(2) True here
        by (auto simp: dims_upd_cell nth_upd_cell less_Suc_eq)
    qed
  qed
qed

lemma detector_row_eq:
  assumes "dims g m n" "i < m"
  shows "fst (detector_row n i g) = row_sum g (n - MEDIAN_DETECTOR_COUNT) n i"
    and "dims (snd (detector_row n i g)) m n"
    and "i' < m \<Longrightarrow> j' < n \<Longrightarrow> snd (detector_row n i g) ! i' ! j' =
            (if i' = i \<and> n - MEDIAN_DETECTOR_COUNT \<le> j'
             then (g ! i' ! j')\<lparr>is_calibrated := True\<rparr> else g ! i' ! j')"
  using detector_row_loop[OF assms order_refl, of "n - MEDIAN_DETECTOR_COUNT" "Fin 0"]
  by (simp_all add: detector_row_def row_sum_def)

lemma row_sum_cong:
  "(\<And>j. a \<le> j \<Longrightarrow> j < b \<Longrightarrow> g ! i ! j = h ! i ! j) \<Longrightarrow>
   row_sum g a b i = row_sum h a b i"
  unfolding row_sum_def by (rule fold_cong) auto

lemma detector_loop:
  assumes "dims g m n" "k \<le> m"
  defines "F \<equiv> (\<lambda>i (med, g).
            (case detector_row n i g of
               (s, g') \<Rightarrow> (med[i := ddiv s (Fin (real MEDIAN_DETECTOR_COUNT))], g')))"
  defines "R \<equiv> fold F [0..<k] (replicate m (Fin 0), g)"
  shows "length (fst R) = m \<and>
         (\<forall>i' < m. fst R ! i' =
            (if i' < k then ddiv (row_sum g (n - MEDIAN_DETECTOR_COUNT) n i')
                              (Fin (real MEDIAN_DETECTOR_COUNT)) else Fin 0)) \<and>
         dims (snd R) m n \<and>
         (\<forall>i' < m. \<forall>j' < n. snd R ! i' ! j' =
            (if i' < k \<and> n - MEDIAN_DETECTOR_COUNT \<le> j'
             then (g ! i' ! j')\<lparr>is_calibrated := True\<rparr> else g ! i' ! j'))"
  using assms(2) unfolding R_def
proof (induction k)
  case 0
  then show ?case using assms(1) by simp
next
  case (Suc k)
  let ?R = "fold F [0..<k] (replicate m (Fin 0), g)"
  from Suc have ih: "length (fst ?R) = m"
    "\<forall>i' < m. fst ?R ! i' =
            (if i' < k then ddiv (row_sum g (n - MEDIAN_DETECTOR_COUNT) n i')
                              (Fin (real MEDIAN_DETECTOR_COUNT)) else Fin 0)"
    "dims (snd ?R) m n"
    "\<forall>i' < m. \<forall>j' < n. snd ?R ! i' ! j' =
            (if i' < k \<and> n - MEDIAN_DETECTOR_COUNT \<le> j'
             then (g ! i' ! j')\<lparr>is_calibrated := True\<rparr> else g ! i' ! j')"
    by simp_all
  from Suc.prems have km: "k < m" by simp
  note row = detector_row_eq[OF ih(3) km]
  have rs: "row_sum (snd ?R) (n - MEDIAN_DETECTOR_COUNT) n k
            = row_sum g (n - MEDIAN_DETECTOR_COUNT) n k"
    by (rule row_sum_cong) (use ih(4) km in simp)
  have step: "fold F [0..<Suc k] (replicate m (Fin 0), g) = F k ?R" by simp
  have R': "F k ?R = ((fst ?R)[k := ddiv (fst (detector_row n k (snd ?R)))
                        (Fin (real MEDIAN_DETECTOR_COUNT))], snd (detector_row n k (snd ?R)))"
    by (simp add: F_def split_beta)
  show ?case
    unfolding step R' using ih km row rs
    by (auto simp: nth_list_update less_Suc_eq)
qed

lemma detector_eq:
  assumes "dims g m n"
  shows "length (fst (detector m n g)) = m"
    and "i < m \<Longrightarrow> fst (detector m n g) ! i =
           ddiv (row_sum g (n - MEDIAN_DETECTOR_COUNT) n i) (Fin (real MEDIAN_DETECTOR_COUNT))"
    and "dims (snd (detector m n g)) m n"
    and "i < m \<Longrightarrow> j < n \<Longrightarrow> snd (detector m n g) ! i ! j =
            (if n - MEDIAN_DETECTOR_COUNT \<le> j
             then (g ! i ! j)\<lparr>is_calibrated := True\<rparr> else g ! i ! j)"
  using detector_loop[OF assms order_refl] by (simp_all add: detector_def)

lemma fold_dadd_Fin:
  "(\<And>x. x \<in> set xs \<Longrightarrow> h x = Fin (f x)) \<Longrightarrow>
   fold (\<lambda>x s. dadd s (h x)) xs (Fin a) = Fin (a + sum_list (map f xs))"
  by (induction xs arbitrary: a) (simp_all add: add.assoc)

lemma column_sum_Fin:
  assumes "\<And>i. a \<le> i \<Longrightarrow> i < b \<Longrightarrow> val (g ! i ! j) = Fin (f i)"
  shows "column_sum g a b j = Fin (\<Sum>i = a..<b. f i)"
  unfolding column_sum_def
  by (subst fold_dadd_Fin[where f = f]) (use assms in \<open>simp_all add: interv_sum_list_conv_sum_set_nat\<close>)

lemma fold_cond_dadd_Fin:
  "(\<And>x. x \<in> set xs \<Longrightarrow> h x = Fin (f x)) \<Longrightarrow>
   fold (\<lambda>x s. if P x then dadd s (h x) else s) xs (Fin a) =
   Fin (a + sum_list (map (\<lambda>x. if P x then f x else 0) xs))"
  by (induction xs arbitrary: a) (simp_all add: add.assoc)

lemma row_sum_Fin:
  assumes "\<And>j. a \<le> j \<Longrightarrow> j < b \<Longrightarrow> val (g ! i ! j) = Fin (f j)"
  shows "row_sum g a b i = Fin (\<Sum>j = a..<b. if \<not> is_calibrated (g ! i ! j) then f j else 0)"
  unfolding row_sum_def
  by (subst fold_cond_dadd_Fin[where f = f])
     (use assms in \<open>simp_all add: interv_sum_list_conv_sum_set_nat\<close>)

lemma accumulate_Fin:
  assumes "\<And>j. j < length xs \<Longrightarrow> xs ! j = Fin (f j)"
  shows "accumulate xs = Fin (\<Sum>j < length xs. f j)"
proof -
  have "accumulate xs = fold (\<lambda>j acc. dadd acc (xs ! j)) [0..<length xs] (Fin 0)"
    unfolding accumulate_def
    by (subst (1) map_nth[symmetric]) (simp only: fold_map comp_def)
  also have "\<dots> = Fin (0 + sum_list (map f [0..<length xs]))"
    by (rule fold_dadd_Fin) (use assms in simp)
  also have "\<dots> = Fin (\<Sum>j < length xs. f j)"
    by (simp add: interv_sum_list_conv_sum_set_nat atLeast0LessThan)
  finally show ?thesis .
qed

lemma dims_data0: "dims data m n \<Longrightarrow> 0 < m \<Longrightarrow> length (data ! 0) = n"
  by (simp add: dims_nth)

lemma dims_replicate: "dims (replicate m (replicate n c)) m n"
  by (simp add: dims_def list_all_length)

lemma stage1_dims: "dims data m n \<Longrightarrow> 0 < m \<Longrightarrow> dims (stage1 data) m n"
  by (simp add: stage1_def Let_def dims_data0 dims_length dims_for_each_cell dims_replicate)

lemma stage1_cell:
  "dims data m n \<Longrightarrow> i < m \<Longrightarrow> j < n \<Longrightarrow>
   stage1 data ! i ! j = \<lparr>val = Fin (bg (data ! i ! j)), is_calibrated = False\<rparr>"
  using dims_data0[of data m n]
  by (simp add: stage1_def Let_def dims_length nth_for_each_cell dims_replicate background_def bg_def)

lemma BETA_pos: "real BETA_THORNE_ROWS_COUNT \<noteq> 0"
  by (simp add: BETA_THORNE_ROWS_COUNT_def)

lemma MEDIAN_pos: "real MEDIAN_DETECTOR_COUNT \<noteq> 0"
  by (simp add: MEDIAN_DETECTOR_COUNT_def)

lemma row_ref_length: "dims data m n \<Longrightarrow> 0 < m \<Longrightarrow> length (row_ref data) = n"
  by (simp add: row_ref_def dims_data0 dims_length beta_thorne_eq(1)[OF stage1_dims])

lemma row_ref_nth:
  assumes "dims data m n" "0 < m" "j < n"
  shows "row_ref data ! j = Fin (rr data j)"
proof -
  have "column_sum (stage1 data) (m - BETA_THORNE_ROWS_COUNT) m j =
        Fin (\<Sum>i = m - BETA_THORNE_ROWS_COUNT..<m. bg (data ! i ! j))"
    by (rule column_sum_Fin) (simp add: stage1_cell[OF assms(1) _ assms(3)])
  then show ?thesis
    using assms beta_thorne_eq(2)[OF stage1_dims[OF assms(1,2)] assms(3)] BETA_pos
    by (simp add: row_ref_def rr_def dims_data0 dims_length)
qed

lemma overall_row_ref_eq:
  assumes "dims data m n" "0 < m" "0 < n"
  shows "overall_row_ref data = Fin (ov data)"
proof -
  have "accumulate (row_ref data) = Fin (\<Sum>j < length (row_ref data). rr data j)"
    by (rule accumulate_Fin) (simp add: row_ref_nth[OF assms(1,2)] row_ref_length[OF assms(1,2)])
  then show ?thesis
    using assms by (simp add: overall_row_ref_def ov_def row_ref_length[OF assms(1,2)] dims_data0)
qed

lemma rows_marked_dims: "dims data m n \<Longrightarrow> 0 < m \<Longrightarrow> dims (rows_marked data) m n"
  by (simp add: rows_marked_def dims_data0 dims_length beta_thorne_eq(3)[OF stage1_dims])

lemma rows_marked_cell:
  assumes "dims data m n" "i < m" "j < n"
  shows "rows_marked data ! i ! j =
           \<lparr>val = Fin (bg (data ! i ! j)),
            is_calibrated = (m - BETA_THORNE_ROWS_COUNT \<le> i)\<rparr>"
proof -
  from assms have m: "0 < m" by simp
  show ?thesis
    using assms m beta_thorne_eq(4)[OF stage1_dims[OF assms(1) m] assms(2,3)]
    by (simp add: rows_marked_def dims_data0 dims_length stage1_cell[OF assms(1)])
qed

lemma stage2_dims: "dims data m n \<Longrightarrow> 0 < m \<Longrightarrow> dims (stage2 data) m n"
  by (simp add: stage2_def Let_def dims_data0 dims_length dims_for_each_cell rows_marked_dims)

lemma stage2_cell:
  assumes "dims data m n" "0 < n" "i < m" "j < n"
  shows "stage2 data ! i ! j =
           (if m - BETA_THORNE_ROWS_COUNT \<le> i
            then \<lparr>val = Fin (bg (data ! i ! j)), is_calibrated = True\<rparr>
            else \<lparr>val = Fin (s2 data i j), is_calibrated = False\<rparr>)"
proof -
  from assms have m: "0 < m" by simp
  have "stage2 data ! i ! j =
        proportion (row_ref data) (overall_row_ref data) i j (rows_marked data ! i ! j)"
    using assms m
    by (simp add: stage2_def Let_def dims_data0 dims_length nth_for_each_cell rows_marked_dims)
  then show ?thesis
    using assms m
    by (simp add: rows_marked_cell[OF assms(1)] proportion_def
          row_ref_nth[OF assms(1) m] overall_row_ref_eq[OF assms(1) m] s2_def)
qed

lemma col_ref_length: "dims data m n \<Longrightarrow> 0 < m \<Longrightarrow> length (col_ref data) = m"
  by (simp add: col_ref_def dims_data0 dims_length detector_eq(1)[OF stage2_dims])

lemma col_ref_nth:
  assumes "dims data m n" "0 < n" "i < m"
  shows "col_ref data ! i = Fin (cr data i)"
proof -
  from assms have m: "0 < m" by simp
  let ?a = "n - MEDIAN_DETECTOR_COUNT"
  have v: "val (stage2 data ! i ! j) =
           Fin (if m - BETA_THORNE_ROWS_COUNT \<le> i then bg (data ! i ! j) else s2 data i j)"
    if "j < n" for j
    using stage2_cell[OF assms(1,2,3) that] by simp
  have "row_sum (stage2 data) ?a n i =
        Fin (\<Sum>j = ?a..<n. if \<not> is_calibrated (stage2 data ! i ! j)
               then (if m - BETA_THORNE_ROWS_COUNT \<le> i then bg (data ! i ! j) else s2 data i j) else 0)"
    by (rule row_sum_Fin) (simp add: v)
  also have "(\<Sum>j = ?a..<n. if \<not> is_calibrated (stage2 data ! i ! j)
               then (if m - BETA_THORNE_ROWS_COUNT \<le> i then bg (data ! i ! j) else s2 data i j) else 0)
            = (if m - BETA_THORNE_ROWS_COUNT \<le> i then 0 else (\<Sum>j = ?a..<n. s2 data i j))"
    by (simp add: stage2_cell[OF assms(1,2,3)])
  finally show ?thesis
    using assms m detector_eq(2)[OF stage2_dims[OF assms(1) m] assms(3)] MEDIAN_pos
    by (simp add: col_ref_def cr_def dims_data0 dims_length)
qed

lemma stage3_dims: "dims data m n \<Longrightarrow> 0 < m \<Longrightarrow> dims (stage3 data) m n"
  by (simp add: stage3_def dims_data0 dims_length detector_eq(3)[OF stage2_dims])

lemma stage3_cell:
  assumes "dims data m n" "i < m" "j < n"
  shows "stage3 data ! i ! j =
           (if n - MEDIAN_DETECTOR_COUNT \<le> j
            then (stage2 data ! i ! j)\<lparr>is_calibrated := True\<rparr> else stage2 data ! i ! j)"
proof -
  from assms have m: "0 < m" by simp
  show ?thesis
    using assms m detector_eq(4)[OF stage2_dims[OF assms(1) m] assms(2,3)]
    by (simp add: stage3_def dims_data0 dims_length)
qed

lemma process_data_stages:
  "process_data data =
     (if length data < BETA_THORNE_ROWS_COUNT then Inl NotEnoughRows
      else if length (data ! 0) < MEDIAN_DETECTOR_COUNT then Inl NotEnoughColumns
      else Inr (for_each_cell (length data) (length (data ! 0))
                  (divide_clamp (col_ref data)) (stage3 data)))"
  by (simp add: process_data_def Let_def split_beta stage3_def col_ref_def stage2_def
        rows_marked_def overall_row_ref_def row_ref_def stage1_def)


subsection \<open>The result of process\_data\<close>

lemma process_data_ok:
  assumes "dims data m n" "BETA_THORNE_ROWS_COUNT \<le> m" "MEDIAN_DETECTOR_COUNT \<le> n"
  shows "process_data data =
           Inr (for_each_cell m n (divide_clamp (col_ref data)) (stage3 data))"
proof -
  have "0 < m" using assms(2) by (simp add: BETA_THORNE_ROWS_COUNT_def)
  then show ?thesis
    using assms by (simp add: process_data_stages dims_length dims_data0)
qed

lemma val_divide_clamp:
  "val (divide_clamp md i j c) =
     clamp1 (if is_calibrated c then val c else ddiv (val c) (md ! i))"
  by (simp add: divide_clamp_def clamp1_def Let_def)

lemma is_calibrated_divide_clamp:
  "is_calibrated (divide_clamp md i j c) = is_calibrated c"
  by (simp add: divide_clamp_def Let_def)

lemma output_cell:
  assumes "dims data m n" "BETA_THORNE_ROWS_COUNT \<le> m" "MEDIAN_DETECTOR_COUNT \<le> n"
    and "i < m" "j < n"
  shows "for_each_cell m n (divide_clamp (col_ref data)) (stage3 data) ! i ! j =
           divide_clamp (col_ref data) i j (stage3 data ! i ! j)"
proof -
  have "0 < m" using assms(4) by simp
  then show ?thesis
    using assms by (simp add: nth_for_each_cell stage3_dims)
qed

lemma output_dims:
  assumes "dims data m n" "0 < m"
  shows "dims (for_each_cell m n (divide_clamp (col_ref data)) (stage3 data)) m n"
  using assms by (simp add: dims_for_each_cell stage3_dims)

lemma stage3_flag:
  assumes "dims data m n" "0 < n" "i < m" "j < n"
  shows "is_calibrated (stage3 data ! i ! j) =
           (m - BETA_THORNE_ROWS_COUNT \<le> i \<or> n - MEDIAN_DETECTOR_COUNT \<le> j)"
  using assms by (simp add: stage3_cell stage2_cell)

lemma output_closed:
  assumes "dims data m n" "BETA_THORNE_ROWS_COUNT \<le> m" "MEDIAN_DETECTOR_COUNT \<le> n"
    and "i < m" "j < n"
  shows "for_each_cell m n (divide_clamp (col_ref data)) (stage3 data) ! i ! j =
           (if m - BETA_THORNE_ROWS_COUNT \<le> i
            then \<lparr>val = clamp1 (Fin (bg (data ! i ! j))), is_calibrated = True\<rparr>
            else if n - MEDIAN_DETECTOR_COUNT \<le> j
            then \<lparr>val = clamp1 (Fin (s2 data i j)), is_calibrated = True\<rparr>
            else \<lparr>val = clamp1 (ddiv (Fin (s2 data i j)) (Fin (cr data i))),
                  is_calibrated = False\<rparr>)"
proof -
  have n: "0 < n" using assms(5) by simp
  show ?thesis
    using assms n
    by (simp add: output_cell stage3_cell stage2_cell col_ref_nth divide_clamp_def clamp1_def Let_def)
qed

lemma projr_process_data:
  assumes "dims data m n" "BETA_THORNE_ROWS_COUNT \<le> m" "MEDIAN_DETECTOR_COUNT \<le> n"
    and "i < m" "j < n"
  shows "\<not> isl (process_data data)"
    and "projr (process_data data) ! i ! j =
           (if m - BETA_THORNE_ROWS_COUNT \<le> i
            then \<lparr>val = clamp1 (Fin (bg (data ! i ! j))), is_calibrated = True\<rparr>
            else if n - MEDIAN_DETECTOR_COUNT \<le> j
            then \<lparr>val = clamp1 (Fin (s2 data i j)), is_calibrated = True\<rparr>
            else \<lparr>val = clamp1 (ddiv (Fin (s2 data i j)) (Fin (cr data i))),
                  is_calibrated = False\<rparr>)"
  using assms by (simp_all add: process_data_ok output_closed)

lemma val_stage1: "dims data m n \<Longrightarrow> i < m \<Longrightarrow> j < n \<Longrightarrow>
  val (stage1 data ! i ! j) = Fin (bg (data ! i ! j))"
  by (simp add: stage1_cell)

lemma bg_nonneg: "0 \<le> bg x"
  by (simp add: bg_def)

lemma rr_nonneg: "0 \<le> rr data j"
  by (simp add: rr_def sum_nonneg bg_nonneg)

lemma ov_nonneg: "0 \<le> ov data"
  by (simp add: ov_def sum_nonneg rr_nonneg)

lemma s2_nonneg: "0 \<le> s2 data i j"
  by (simp add: s2_def bg_nonneg rr_nonneg ov_nonneg)

lemma cr_nonneg: "0 \<le> cr data i"
  by (simp add: cr_def sum_nonneg s2_nonneg)

lemma clamp1_Fin: "clamp1 (Fin x) = Fin (min x 1)"
  by (simp add: clamp1_def min_def)

lemma not_above_one_clamp1: "\<not> dgt (clamp1 d) (Fin 1)"
  by (cases d) (simp_all add: clamp1_def)

lemma output_not_above_one:
  assumes "dims data m n" "BETA_THORNE_ROWS_COUNT \<le> m" "MEDIAN_DETECTOR_COUNT \<le> n"
    and "i < m" "j < n"
  shows "\<not> dgt (val (projr (process_data data) ! i ! j)) (Fin 1)"
  using assms by (simp add: process_data_ok output_cell val_divide_clamp not_above_one_clamp1)

lemma clamp1_ddiv_range:
  assumes "0 \<le> a" "0 \<le> b"
  shows "clamp1 (ddiv (Fin a) (Fin b)) = NaN \<and> a = 0 \<and> b = 0 \<or>
         (\<exists>x. clamp1 (ddiv (Fin a) (Fin b)) = Fin x \<and> 0 \<le> x \<and> x \<le> 1)"
  using assms by (auto simp: clamp1_def)

lemma output_value_range:
  assumes "dims data m n" "BETA_THORNE_ROWS_COUNT \<le> m" "MEDIAN_DETECTOR_COUNT \<le> n"
    and "i < m" "j < n"
  shows "val (projr (process_data data) ! i ! j) = NaN \<and>
           \<not> is_calibrated (projr (process_data data) ! i ! j) \<and> cr data i = 0 \<or>
         (\<exists>x. val (projr (process_data data) ! i ! j) = Fin x \<and> 0 \<le> x \<and> x \<le> 1)"
  using assms clamp1_ddiv_range[OF s2_nonneg[of data i j] cr_nonneg[of data i]]
  by (auto simp: projr_process_data clamp1_Fin bg_nonneg s2_nonneg)

lemma fold_cond_filter:
  "fold (\<lambda>c s. if P c then f c s else s) xs s0 = fold f (filter P xs) s0"
  by (induction xs arbitrary: s0) simp_all

lemma row_sum_filter:
  assumes "length (g ! i) = n"
  shows "row_sum g a n i =
         accumulate (map val (filter (\<lambda>c. \<not> is_calibrated c) (drop a (g ! i))))"
proof -
  let ?F = "\<lambda>c s. if \<not> is_calibrated c then dadd s (val c) else s"
  have d: "drop a (g ! i) = map (nth (g ! i)) [a..<n]"
    using assms by (auto intro: nth_equalityI)
  have "row_sum g a n i = fold ?F (map (nth (g ! i)) [a..<n]) (Fin 0)"
    by (simp add: row_sum_def fold_map comp_def)
  also have "\<dots> = fold (\<lambda>c s. dadd s (val c)) (filter (\<lambda>c. \<not> is_calibrated c) (drop a (g ! i))) (Fin 0)"
    by (simp only: d fold_cond_filter)
  also have "\<dots> = accumulate (map val (filter (\<lambda>c. \<not> is_calibrated c) (drop a (g ! i))))"
    by (simp add: accumulate_def fold_map comp_def)
  finally show ?thesis .
qed

subsection \<open>The example grids, evaluated\<close>

lemma rr_const:
  assumes "BETA_THORNE_ROWS_COUNT \<le> length data"
    and "\<And>i. length data - BETA_THORNE_ROWS_COUNT \<le> i \<Longrightarrow> i < length data \<Longrightarrow> bg (data ! i ! j) = c"
  shows "rr data j = c"
proof -
  have "(\<Sum>i = length data - BETA_THORNE_ROWS_COUNT..<length data. bg (data ! i ! j)) =
        (\<Sum>i = length data - BETA_THORNE_ROWS_COUNT..<length data. c)"
    by (rule sum.cong) (simp_all add: assms(2))
  then show ?thesis
    using assms(1) by (simp add: rr_def BETA_THORNE_ROWS_COUNT_def)
qed

lemma ov_eval:
  assumes "\<And>j. j < length (data ! 0) \<Longrightarrow> rr data j = f j"
  shows "ov data = (\<Sum>j < length (data ! 0). f j) / real (length (data ! 0))"
  unfolding ov_def using assms by simp

lemma cr_eval:
  assumes "i < length data - BETA_THORNE_ROWS_COUNT"
    and "\<And>j. length (data ! 0) - MEDIAN_DETECTOR_COUNT \<le> j \<Longrightarrow> j < length (data ! 0) \<Longrightarrow>
           s2 data i j = f j"
  shows "cr data i =
           (\<Sum>j = length (data ! 0) - MEDIAN_DETECTOR_COUNT..<length (data ! 0). f j)
             / real MEDIAN_DETECTOR_COUNT"
  unfolding cr_def using assms by simp

lemma grid_uniform_dims: "dims grid_uniform 16 51"
  by (simp add: grid_uniform_def dims_def list_all_length)

lemma grid_uniform_len: "length grid_uniform = 16" "length (grid_uniform ! 0) = 51"
  by (simp_all add: grid_uniform_def)

lemma grid_uniform_bg: "i < 16 \<Longrightarrow> j < 51 \<Longrightarrow> bg (grid_uniform ! i ! j) = 952"
  by (simp add: grid_uniform_def bg_def SIGNAL_THRESHOLD_def)

lemma grid_uniform_rr: "j < 51 \<Longrightarrow> rr grid_uniform j = 952"
  by (rule rr_const) (simp_all add: grid_uniform_len BETA_THORNE_ROWS_COUNT_def grid_uniform_bg)

lemma grid_uniform_ov: "ov grid_uniform = 952"
  by (subst ov_eval[where f = "\<lambda>j. 952"]) (simp_all add: grid_uniform_len grid_uniform_rr)

lemma grid_uniform_s2: "i < 16 \<Longrightarrow> j < 51 \<Longrightarrow> s2 grid_uniform i j = 952"
  by (simp add: s2_def grid_uniform_rr grid_uniform_ov grid_uniform_bg)

lemma grid_uniform_cr: "cr grid_uniform 0 = 952"
  by (subst cr_eval[where f = "\<lambda>j. 952"])
     (simp_all add: grid_uniform_len grid_uniform_s2 BETA_THORNE_ROWS_COUNT_def MEDIAN_DETECTOR_COUNT_def)

lemma grid_uniform_cr_ref: "cr grid_uniform 15 = 0"
  by (simp add: cr_def grid_uniform_len BETA_THORNE_ROWS_COUNT_def)

lemma grid_zero_dims: "dims grid_zero 16 51"
  by (simp add: grid_zero_def dims_def list_all_length)

lemma grid_zero_len: "length grid_zero = 16" "length (grid_zero ! 0) = 51"
  by (simp_all add: grid_zero_def)

lemma grid_zero_s2: "j < 51 \<Longrightarrow> s2 grid_zero i j = 0"
proof -
  assume "j < 51"
  then have "rr grid_zero j = 0"
    by (intro rr_const)
       (simp_all add: grid_zero_len BETA_THORNE_ROWS_COUNT_def grid_zero_def bg_def SIGNAL_THRESHOLD_def)
  then show ?thesis by (simp add: s2_def)
qed

lemma grid_zero_cr: "cr grid_zero 0 = 0"
  by (subst cr_eval[where f = "\<lambda>j. 0"])
     (simp_all add: grid_zero_len grid_zero_s2 BETA_THORNE_ROWS_COUNT_def)

lemma grid_zero_refs_dims: "dims grid_zero_refs 16 50"
  by (simp add: grid_zero_refs_def dims_def list_all_length nth_Cons')

lemma grid_zero_refs_rr: "rr grid_zero_refs 0 = 0"
  by (rule rr_const)
     (simp_all add: grid_zero_refs_def BETA_THORNE_ROWS_COUNT_def nth_Cons' bg_def SIGNAL_THRESHOLD_def)

lemma grid_last_column_dims: "dims grid_last_column 16 50"
  by (simp add: grid_last_column_def dims_def list_all_length)

lemma grid_last_column_nth:
  "i < 16 \<Longrightarrow> j < 50 \<Longrightarrow> grid_last_column ! i ! j = (if j = 49 then 2049 else 0)"
  by (auto simp: grid_last_column_def nth_append)

lemma grid_last_column_len: "length grid_last_column = 16" "length (grid_last_column ! 0) = 50"
  by (simp_all add: grid_last_column_def)

lemma grid_last_column_rr: "j < 50 \<Longrightarrow> rr grid_last_column j = (if j = 49 then 1 else 0)"
  by (rule rr_const)
     (simp_all add: grid_last_column_len BETA_THORNE_ROWS_COUNT_def grid_last_column_nth bg_def
        SIGNAL_THRESHOLD_def)

lemma grid_last_column_ov: "ov grid_last_column = 1 / 50"
  by (subst ov_eval[where f = "\<lambda>j. if j = 49 then 1 else 0"])
     (simp_all add: grid_last_column_len grid_last_column_rr)

lemma grid_last_column_s2: "s2 grid_last_column 0 49 = 1 / 50"
  by (simp add: s2_def grid_last_column_rr grid_last_column_ov grid_last_column_nth bg_def
        SIGNAL_THRESHOLD_def)

subsection \<open>Errors, dimensions and flags\<close>

text \<open>
  Claim C5. For a raw grid of positive height and width, \<open>process_data\<close> fails if and
  only if the grid has fewer than 15 rows or fewer than 50 columns. With fewer than 15
  rows the error is the one of the row check, whatever the width: the column check and
  the detector loop come later in the body. A failure is an \<open>Inl\<close>, so it carries no
  grid, and a grid is returned only when both checks passed.
\<close>

theorem process_data_fails_iff:
  assumes "dims data m n" "0 < m" "0 < n"
  shows "(isl (process_data data) \<longleftrightarrow> m < BETA_THORNE_ROWS_COUNT \<or> n < MEDIAN_DETECTOR_COUNT) \<and>
         (m < BETA_THORNE_ROWS_COUNT \<longrightarrow> process_data data = Inl NotEnoughRows) \<and>
         (BETA_THORNE_ROWS_COUNT \<le> m \<and> n < MEDIAN_DETECTOR_COUNT \<longrightarrow>
            process_data data = Inl NotEnoughColumns) \<and>
         (\<forall>out. process_data data = Inr out \<longrightarrow>
            BETA_THORNE_ROWS_COUNT \<le> m \<and> MEDIAN_DETECTOR_COUNT \<le> n)"
  using assms by (auto simp: process_data_stages dims_length dims_data0)

theorem process_data_fails_iff_witness:
  "dims (replicate 10 (replicate 60 (0::int))) 10 60 \<and>
   isl (process_data (replicate 10 (replicate 60 0))) \<and>
   process_data (replicate 10 (replicate 60 0)) = Inl NotEnoughRows \<and>
   dims (replicate 10 (replicate 40 (0::int))) 10 40 \<and>
   process_data (replicate 10 (replicate 40 0)) = Inl NotEnoughRows \<and>
   dims (replicate 20 (replicate 40 (0::int))) 20 40 \<and>
   process_data (replicate 20 (replicate 40 0)) = Inl NotEnoughColumns"
  using process_data_fails_iff[of "replicate 10 (replicate 60 0)" 10 60]
        process_data_fails_iff[of "replicate 10 (replicate 40 0)" 10 40]
        process_data_fails_iff[of "replicate 20 (replicate 40 0)" 20 40]
  by (simp add: dims_replicate BETA_THORNE_ROWS_COUNT_def MEDIAN_DETECTOR_COUNT_def)

text \<open>
  Claim C9. On a raw grid with at least 15 rows and 50 columns \<open>process_data\<close> returns a
  grid (all its loops are bounded, so the model is a total function), and the grid has
  the height and the width of the input.
\<close>

theorem process_data_dims:
  assumes "dims data m n" "BETA_THORNE_ROWS_COUNT \<le> m" "MEDIAN_DETECTOR_COUNT \<le> n"
  shows "\<exists>out. process_data data = Inr out \<and> dims out m n"
proof -
  have "0 < m" using assms(2) by (simp add: BETA_THORNE_ROWS_COUNT_def)
  then show ?thesis
    using assms by (simp add: process_data_ok output_dims)
qed

theorem process_data_dims_witness:
  "dims (replicate 20 (replicate 60 (3000::int))) 20 60 \<and>
   (\<exists>out. process_data (replicate 20 (replicate 60 3000)) = Inr out \<and> dims out 20 60)"
  using process_data_dims[of "replicate 20 (replicate 60 3000)" 20 60]
  by (simp add: dims_replicate BETA_THORNE_ROWS_COUNT_def MEDIAN_DETECTOR_COUNT_def)

text \<open>
  Claim C1. For a raw grid with at least 15 rows and 50 columns, a cell of the grid
  \<open>process_data\<close> returns is marked calibrated if and only if it lies in the last 15
  rows or in the last 50 columns.
\<close>

theorem calibrated_iff_reference_strip:
  assumes "dims data m n" "BETA_THORNE_ROWS_COUNT \<le> m" "MEDIAN_DETECTOR_COUNT \<le> n"
  shows "\<exists>out. process_data data = Inr out \<and>
           (\<forall>i < m. \<forall>j < n. is_calibrated (out ! i ! j) \<longleftrightarrow>
              m - BETA_THORNE_ROWS_COUNT \<le> i \<or> n - MEDIAN_DETECTOR_COUNT \<le> j)"
proof -
  have "0 < n" using assms(3) by (simp add: MEDIAN_DETECTOR_COUNT_def)
  then show ?thesis
    using assms
    by (simp add: process_data_ok output_cell is_calibrated_divide_clamp stage3_flag)
qed

theorem calibrated_iff_reference_strip_witness:
  "dims (replicate 20 (replicate 60 (3000::int))) 20 60 \<and>
   (\<exists>out. process_data (replicate 20 (replicate 60 3000)) = Inr out \<and>
      \<not> is_calibrated (out ! 4 ! 9) \<and> is_calibrated (out ! 5 ! 9) \<and>
      is_calibrated (out ! 4 ! 10) \<and> is_calibrated (out ! 19 ! 59))"
  using calibrated_iff_reference_strip[of "replicate 20 (replicate 60 3000)" 20 60]
  by (auto simp: dims_replicate BETA_THORNE_ROWS_COUNT_def MEDIAN_DETECTOR_COUNT_def)

subsection \<open>The reference averages\<close>

text \<open>
  Claim C7. For a raw grid with at least 15 rows and 50 columns and every row \<open>i\<close>,
  \<open>median_detector[i]\<close> (\<open>col_ref\<close>) is the sum of the values of the
  cells of row \<open>i\<close> in the last 50 columns that are not calibrated when the loop of lines
  188-197 reaches them (the grid is the one after the loop of lines 169-181), divided by
  the constant 50, whatever the number of cells in the sum.
\<close>

theorem col_ref_fixed_divisor:
  assumes "dims data m n" "BETA_THORNE_ROWS_COUNT \<le> m" "MEDIAN_DETECTOR_COUNT \<le> n"
    and "i < m"
  shows "col_ref data ! i =
           ddiv (accumulate (map val (filter (\<lambda>c. \<not> is_calibrated c)
                   (drop (n - MEDIAN_DETECTOR_COUNT) (stage2 data ! i)))))
                (Fin (real MEDIAN_DETECTOR_COUNT))"
proof -
  have m: "0 < m" using assms(4) by simp
  note d2 = stage2_dims[OF assms(1) m]
  have "col_ref data ! i =
        ddiv (row_sum (stage2 data) (n - MEDIAN_DETECTOR_COUNT) n i) (Fin (real MEDIAN_DETECTOR_COUNT))"
    using assms m by (simp add: col_ref_def dims_data0 dims_length detector_eq(2)[OF d2])
  then show ?thesis
    using row_sum_filter[OF dims_nth[OF d2 assms(4)]] by simp
qed

theorem col_ref_fixed_divisor_witness:
  "dims grid_uniform 16 51 \<and>
   col_ref grid_uniform ! 0 =
     ddiv (accumulate (map val (filter (\<lambda>c. \<not> is_calibrated c)
             (drop 1 (stage2 grid_uniform ! 0))))) (Fin 50) \<and>
   col_ref grid_uniform ! 0 = Fin 952 \<and>
   col_ref grid_uniform ! 15 =
     ddiv (accumulate (map val (filter (\<lambda>c. \<not> is_calibrated c)
             (drop 1 (stage2 grid_uniform ! 15))))) (Fin 50) \<and>
   col_ref grid_uniform ! 15 = Fin 0"
  using col_ref_fixed_divisor[OF grid_uniform_dims, of 0]
        col_ref_fixed_divisor[OF grid_uniform_dims, of 15]
        col_ref_nth[OF grid_uniform_dims, of 0] col_ref_nth[OF grid_uniform_dims, of 15]
        grid_uniform_dims
  by (simp add: BETA_THORNE_ROWS_COUNT_def MEDIAN_DETECTOR_COUNT_def grid_uniform_cr
        grid_uniform_cr_ref)

text \<open>
  Claim C6. For a raw grid with at least 15 rows and 50 columns and every column \<open>j\<close>,
  \<open>median_betathrone[j]\<close> (\<open>row_ref\<close>) is the sum of the values of the last 15 rows at
  column \<open>j\<close> after the background normalization, divided by 15. When it is zero, every
  cell of column \<open>j\<close> that is not calibrated when the loop of lines 169-181 runs has the
  value 0 after it, and the body of that loop gives 0 for every value of
  \<open>overall_median\<close>.
\<close>

theorem zero_row_reference:
  assumes "dims data m n" "BETA_THORNE_ROWS_COUNT \<le> m" "MEDIAN_DETECTOR_COUNT \<le> n"
    and "i < m" "j < n"
    and "row_ref data ! j = Fin 0"
    and "\<not> is_calibrated (rows_marked data ! i ! j)"
  shows "row_ref data ! j =
           ddiv (column_sum (stage1 data) (m - BETA_THORNE_ROWS_COUNT) m j)
                (Fin (real BETA_THORNE_ROWS_COUNT)) \<and>
         val (stage2 data ! i ! j) = Fin 0 \<and>
         (\<forall>overall. val (proportion (row_ref data) overall i j (rows_marked data ! i ! j)) = Fin 0)"
proof -
  have m: "0 < m" using assms(4) by simp
  have "row_ref data ! j =
           ddiv (column_sum (stage1 data) (m - BETA_THORNE_ROWS_COUNT) m j)
                (Fin (real BETA_THORNE_ROWS_COUNT))"
    using assms m
    by (simp add: row_ref_def dims_data0 dims_length beta_thorne_eq(2)[OF stage1_dims])
  moreover have "val (proportion (row_ref data) overall i j (rows_marked data ! i ! j)) = Fin 0"
    for overall
    using assms(6,7) by (simp add: proportion_def)
  moreover have "stage2 data ! i ! j =
        proportion (row_ref data) (overall_row_ref data) i j (rows_marked data ! i ! j)"
    using assms m
    by (simp add: stage2_def Let_def dims_data0 dims_length nth_for_each_cell rows_marked_dims)
  ultimately show ?thesis by simp
qed

theorem zero_row_reference_witness:
  "dims grid_zero_refs 16 50 \<and> row_ref grid_zero_refs ! 0 = Fin 0 \<and>
   \<not> is_calibrated (rows_marked grid_zero_refs ! 0 ! 0) \<and>
   val (stage1 grid_zero_refs ! 0 ! 0) = Fin 952 \<and>
   val (stage2 grid_zero_refs ! 0 ! 0) = Fin 0"
proof -
  note d = grid_zero_refs_dims
  have r: "row_ref grid_zero_refs ! 0 = Fin 0"
    using row_ref_nth[OF d, of 0] by (simp add: grid_zero_refs_rr)
  have c: "\<not> is_calibrated (rows_marked grid_zero_refs ! 0 ! 0)"
    using rows_marked_cell[OF d, of 0 0] by (simp add: BETA_THORNE_ROWS_COUNT_def)
  have v: "val (stage1 grid_zero_refs ! 0 ! 0) = Fin 952"
    using val_stage1[OF d, of 0 0]
    by (simp add: grid_zero_refs_def bg_def SIGNAL_THRESHOLD_def)
  show ?thesis
    using zero_row_reference[OF d _ _ _ _ r c] d r c v
    by (simp add: BETA_THORNE_ROWS_COUNT_def MEDIAN_DETECTOR_COUNT_def)
qed

subsection \<open>Bounds on the output values\<close>

text \<open>
  Claim C10. For a raw grid with at least 15 rows and 50 columns: when
  \<open>median_detector[i]\<close> is not zero for every row \<open>i\<close> that has a cell the
  loop of lines 199-208 divides (a cell still not calibrated), every value of the grid
  \<open>process_data\<close> returns is at least 0.
\<close>

theorem output_nonneg:
  assumes "dims data m n" "BETA_THORNE_ROWS_COUNT \<le> m" "MEDIAN_DETECTOR_COUNT \<le> n"
    and "\<forall>i < m. (\<exists>j < n. \<not> is_calibrated (stage3 data ! i ! j)) \<longrightarrow> dne0 (col_ref data ! i)"
  shows "\<exists>out. process_data data = Inr out \<and>
           (\<forall>i < m. \<forall>j < n. dle (Fin 0) (val (out ! i ! j)))"
proof -
  have n: "0 < n" using assms(3) by (simp add: MEDIAN_DETECTOR_COUNT_def)
  have "dle (Fin 0) (val (for_each_cell m n (divide_clamp (col_ref data)) (stage3 data) ! i ! j))"
    if ij: "i < m" "j < n" for i j
  proof (cases "m - BETA_THORNE_ROWS_COUNT \<le> i \<or> n - MEDIAN_DETECTOR_COUNT \<le> j")
    case True
    then show ?thesis
      using ij assms(1-3)
      by (auto simp: output_closed clamp1_Fin bg_nonneg s2_nonneg)
  next
    case False
    then have "\<not> is_calibrated (stage3 data ! i ! j)"
      using ij assms(1) n by (simp add: stage3_flag)
    then have "dne0 (col_ref data ! i)" using assms(4) ij by blast
    then have "cr data i \<noteq> 0"
      using ij assms(1) n by (simp add: col_ref_nth)
    then show ?thesis
      using False ij assms(1-3)
      by (simp add: output_closed clamp1_Fin s2_nonneg cr_nonneg)
  qed
  then show ?thesis
    using assms by (simp add: process_data_ok)
qed

theorem output_nonneg_witness:
  "dims grid_uniform 16 51 \<and> dne0 (col_ref grid_uniform ! 0) \<and>
   (\<exists>out. process_data grid_uniform = Inr out \<and>
      dle (Fin 0) (val (out ! 0 ! 0)) \<and> dle (Fin 0) (val (out ! 15 ! 50)))"
proof -
  note d = grid_uniform_dims
  have c: "dne0 (col_ref grid_uniform ! 0)"
    using col_ref_nth[OF d, of 0] by (simp add: grid_uniform_cr)
  have h: "\<forall>i < 16. (\<exists>j < 51. \<not> is_calibrated (stage3 grid_uniform ! i ! j)) \<longrightarrow>
             dne0 (col_ref grid_uniform ! i)"
  proof (intro allI impI)
    fix i :: nat
    assume i: "i < 16" and "\<exists>j < 51. \<not> is_calibrated (stage3 grid_uniform ! i ! j)"
    then have "i = 0"
      using stage3_flag[OF d, of i] by (auto simp: BETA_THORNE_ROWS_COUNT_def)
    then show "dne0 (col_ref grid_uniform ! i)" using c by simp
  qed
  show ?thesis
    using output_nonneg[OF d _ _ h] d c
    by (auto simp: BETA_THORNE_ROWS_COUNT_def MEDIAN_DETECTOR_COUNT_def)
qed

text \<open>
  Claim C2 asks for a value of at most 1.0 in every cell of the result. On the grid of 16
  rows and 51 columns whose readings are all 0, \<open>median_detector[0]\<close> is 0 and the cell
  in row 0, column 0 is divided: \<open>0.0 / 0.0\<close> is NaN, the comparison \<open>NaN > 1.0\<close> of the
  clamp is false, and the cell keeps NaN, which is not at most 1.0. The loop of lines
  169-181 guards its division against a zero reference; the loop of lines 199-208 does
  not.
\<close>

theorem nan_survives_clamp:
  "\<not> isl (process_data grid_zero) \<and>
   val (projr (process_data grid_zero) ! 0 ! 0) = NaN \<and>
   \<not> dle (val (projr (process_data grid_zero) ! 0 ! 0)) (Fin 1)"
  using projr_process_data[OF grid_zero_dims, of 0 0]
  by (simp add: BETA_THORNE_ROWS_COUNT_def MEDIAN_DETECTOR_COUNT_def grid_zero_s2 grid_zero_cr
        clamp1_def)

subsection \<open>Where the value of a calibrated cell comes from\<close>

text \<open>
  Claim C3 says the value of a calibrated cell is never scaled by the proportion. The
  cells of the last 50 columns above the last 15 rows are marked only by the loop of lines
  188-197, after the loop of lines 169-181 has scaled them. Below, a grid of 16 rows and 50
  columns whose last column reads 2049 and every other column 0: the reading of the cell
  in row 0, column 49 is 1 after the background normalization, the proportion is 1/50,
  and the calibrated cell of the result holds 1/50.
\<close>

theorem calibrated_value_origin_counterexample:
  "\<not> isl (process_data grid_last_column) \<and>
   is_calibrated (projr (process_data grid_last_column) ! 0 ! 49) \<and>
   val (stage1 grid_last_column ! 0 ! 49) = Fin 1 \<and>
   val (stage2 grid_last_column ! 0 ! 49) = Fin (1 / 50) \<and>
   val (stage3 grid_last_column ! 0 ! 49) = Fin (1 / 50) \<and>
   val (projr (process_data grid_last_column) ! 0 ! 49) = Fin (1 / 50)"
  using projr_process_data[OF grid_last_column_dims, of 0 49]
    val_stage1[OF grid_last_column_dims, of 0 49]
    stage2_cell[OF grid_last_column_dims, of 0 49]
    stage3_cell[OF grid_last_column_dims, of 0 49]
  by (simp add: BETA_THORNE_ROWS_COUNT_def MEDIAN_DETECTOR_COUNT_def grid_last_column_s2
        grid_last_column_nth bg_def SIGNAL_THRESHOLD_def clamp1_Fin)

text \<open>
  Claim C3, amended. A calibrated cell of the result is never divided by
  \<open>median_detector\<close>: its value is the value after the loop of lines 169-181, clamped to
  1.0. In the last 15 rows that value is the one of the background normalization; in the
  last 50 columns above them it is that value scaled by
  \<open>overall_median / median_betathrone[j]\<close>, or 0 when \<open>median_betathrone[j]\<close> is 0.
\<close>

theorem calibrated_value_origin:
  assumes "dims data m n" "BETA_THORNE_ROWS_COUNT \<le> m" "MEDIAN_DETECTOR_COUNT \<le> n"
    and "i < m" "j < n"
  shows "\<exists>out. process_data data = Inr out \<and>
           (is_calibrated (out ! i ! j) \<longrightarrow>
              val (stage3 data ! i ! j) = val (stage2 data ! i ! j) \<and>
              val (out ! i ! j) = clamp1 (val (stage2 data ! i ! j)) \<and>
              (m - BETA_THORNE_ROWS_COUNT \<le> i \<longrightarrow>
                 val (stage2 data ! i ! j) = val (stage1 data ! i ! j)) \<and>
              (i < m - BETA_THORNE_ROWS_COUNT \<longrightarrow>
                 val (stage2 data ! i ! j) =
                   (if dne0 (row_ref data ! j)
                    then dmul (val (stage1 data ! i ! j))
                           (ddiv (overall_row_ref data) (row_ref data ! j))
                    else Fin 0)))"
proof -
  have n: "0 < n" and m: "0 < m" using assms(4,5) by simp_all
  have s3: "val (stage3 data ! i ! j) = val (stage2 data ! i ! j)"
    using assms by (simp add: stage3_cell)
  have cal: "is_calibrated (stage3 data ! i ! j)"
    if "is_calibrated (divide_clamp (col_ref data) i j (stage3 data ! i ! j))"
    using that by (simp add: is_calibrated_divide_clamp)
  have out: "val (divide_clamp (col_ref data) i j (stage3 data ! i ! j)) =
             clamp1 (val (stage2 data ! i ! j))"
    if "is_calibrated (stage3 data ! i ! j)"
    using that s3 by (simp add: val_divide_clamp)
  have rows: "val (stage2 data ! i ! j) = val (stage1 data ! i ! j)"
    if "m - BETA_THORNE_ROWS_COUNT \<le> i"
    using that assms n by (simp add: stage2_cell stage1_cell)
  have above: "val (stage2 data ! i ! j) =
                   (if dne0 (row_ref data ! j)
                    then dmul (val (stage1 data ! i ! j))
                           (ddiv (overall_row_ref data) (row_ref data ! j))
                    else Fin 0)"
    if "i < m - BETA_THORNE_ROWS_COUNT"
  proof -
    have "stage2 data ! i ! j =
          proportion (row_ref data) (overall_row_ref data) i j (rows_marked data ! i ! j)"
      using assms m
      by (simp add: stage2_def Let_def dims_data0 dims_length nth_for_each_cell rows_marked_dims)
    then show ?thesis
      using that assms by (simp add: rows_marked_cell stage1_cell proportion_def)
  qed
  show ?thesis
    using assms s3 cal out rows above
    by (simp add: process_data_ok output_cell)
qed

theorem calibrated_value_origin_witness:
  "dims grid_last_column 16 50 \<and>
   (\<exists>out. process_data grid_last_column = Inr out \<and> is_calibrated (out ! 0 ! 49) \<and>
      val (out ! 0 ! 49) = clamp1 (val (stage2 grid_last_column ! 0 ! 49)) \<and>
      is_calibrated (out ! 15 ! 49) \<and>
      val (out ! 15 ! 49) = clamp1 (val (stage1 grid_last_column ! 15 ! 49)))"
  using calibrated_value_origin[OF grid_last_column_dims, of 0 49]
        calibrated_value_origin[OF grid_last_column_dims, of 15 49]
        projr_process_data[OF grid_last_column_dims, of 0 49]
        projr_process_data[OF grid_last_column_dims, of 15 49]
        grid_last_column_dims
  by (auto simp: BETA_THORNE_ROWS_COUNT_def MEDIAN_DETECTOR_COUNT_def)

subsection \<open>The image vectors\<close>

lemma length_set_pixel: "length (set_pixel bytes k p) = length bytes"
  by (simp add: set_pixel_def)

lemma pixel_at_set_pixel:
  assumes "q * BYTES_PER_PIXEL + 2 < length bytes"
  shows "pixel_at (set_pixel bytes (q * BYTES_PER_PIXEL) p) q' =
           (if q' = q then p else pixel_at bytes q')"
  using assms
  by (auto simp: pixel_at_def set_pixel_def BYTES_PER_PIXEL_def nth_list_update)

lemma cell_index: "i < m \<Longrightarrow> j < n \<Longrightarrow> i * n + j < m * (n::nat)"
proof -
  assume "i < m" "j < n"
  then have "i * n + j < i * n + n" by simp
  also have "\<dots> = Suc i * n" by simp
  also have "\<dots> \<le> m * n" using \<open>i < m\<close> by (intro mult_le_mono1) simp
  finally show ?thesis .
qed

lemma render_row:
  fixes pixel data i n
  defines "F \<equiv> (\<lambda>j bytes.
                 case bytes of
                   None \<Rightarrow> None
                 | Some bytes \<Rightarrow>
                     (case pixel (data ! i ! j) of
                        None \<Rightarrow> None
                      | Some p \<Rightarrow> Some (set_pixel bytes ((i * n + j) * BYTES_PER_PIXEL) p)))"
  assumes "i < m" "k \<le> n" "length img0 = m * n * BYTES_PER_PIXEL"
    and "fold F [0..<k] (Some img0) = Some img"
  shows "length img = length img0 \<and>
         (\<forall>j < k. pixel (data ! i ! j) = Some (pixel_at img (i * n + j))) \<and>
         (\<forall>q. \<not> (i * n \<le> q \<and> q < i * n + k) \<longrightarrow> pixel_at img q = pixel_at img0 q)"
  using assms(3,5)
proof (induction k arbitrary: img)
  case 0
  then show ?case by simp
next
  case (Suc k)
  from Suc.prems(2) have st: "F k (fold F [0..<k] (Some img0)) = Some img" by simp
  then obtain img1 where f1: "fold F [0..<k] (Some img0) = Some img1"
    by (cases "fold F [0..<k] (Some img0)") (simp_all add: F_def)
  from st f1 obtain p where p: "pixel (data ! i ! k) = Some p"
    and img: "img = set_pixel img1 ((i * n + k) * BYTES_PER_PIXEL) p"
    by (cases "pixel (data ! i ! k)") (simp_all add: F_def)
  from Suc.IH[OF _ f1] Suc.prems(1)
  have ih: "length img1 = length img0"
    "\<forall>j < k. pixel (data ! i ! j) = Some (pixel_at img1 (i * n + j))"
    "\<forall>q. \<not> (i * n \<le> q \<and> q < i * n + k) \<longrightarrow> pixel_at img1 q = pixel_at img0 q"
    by simp_all
  have "i * n + k < m * n" using cell_index[OF assms(2), of k n] Suc.prems(1) by simp
  then have inb: "(i * n + k) * BYTES_PER_PIXEL + 2 < length img1"
    using ih(1) assms(4) by (simp add: BYTES_PER_PIXEL_def)
  show ?case
    using ih p
    by (auto simp: img length_set_pixel pixel_at_set_pixel[OF inb] less_Suc_eq)
qed

lemma render_row_None:
  "fold (\<lambda>j bytes.
           case bytes of
             None \<Rightarrow> None
           | Some bytes \<Rightarrow>
               (case pixel (data ! i ! j) of
                  None \<Rightarrow> None
                | Some p \<Rightarrow> Some (set_pixel bytes ((i * n + j) * BYTES_PER_PIXEL) p)))
     js None = None"
  by (induction js) simp_all

lemma render_rows:
  fixes pixel data n
  defines "G \<equiv> (\<lambda>i. fold (\<lambda>j bytes.
                 case bytes of
                   None \<Rightarrow> None
                 | Some bytes \<Rightarrow>
                     (case pixel (data ! i ! j) of
                        None \<Rightarrow> None
                      | Some p \<Rightarrow> Some (set_pixel bytes ((i * n + j) * BYTES_PER_PIXEL) p)))
                 [0..<n])"
  assumes "k \<le> m" "length img0 = m * n * BYTES_PER_PIXEL"
    and "fold G [0..<k] (Some img0) = Some img"
  shows "length img = length img0 \<and>
         (\<forall>i < k. \<forall>j < n. pixel (data ! i ! j) = Some (pixel_at img (i * n + j))) \<and>
         (\<forall>q. k * n \<le> q \<longrightarrow> pixel_at img q = pixel_at img0 q)"
  using assms(2,4)
proof (induction k arbitrary: img)
  case 0
  then show ?case by simp
next
  case (Suc k)
  from Suc.prems(2) have st: "G k (fold G [0..<k] (Some img0)) = Some img" by simp
  then obtain img1 where f1: "fold G [0..<k] (Some img0) = Some img1"
    by (cases "fold G [0..<k] (Some img0)") (simp_all add: G_def render_row_None)
  from Suc.IH[OF _ f1] Suc.prems(1)
  have ih: "length img1 = length img0"
    "\<forall>i < k. \<forall>j < n. pixel (data ! i ! j) = Some (pixel_at img1 (i * n + j))"
    "\<forall>q. k * n \<le> q \<longrightarrow> pixel_at img1 q = pixel_at img0 q"
    by simp_all
  from Suc.prems(1) have km: "k < m" by simp
  have l1: "length img1 = m * n * BYTES_PER_PIXEL" using ih(1) assms(3) by simp
  from st f1 have row: "fold (\<lambda>j bytes.
                 case bytes of
                   None \<Rightarrow> None
                 | Some bytes \<Rightarrow>
                     (case pixel (data ! k ! j) of
                        None \<Rightarrow> None
                      | Some p \<Rightarrow> Some (set_pixel bytes ((k * n + j) * BYTES_PER_PIXEL) p)))
                 [0..<n] (Some img1) = Some img"
    by (simp add: G_def)
  note r = render_row[OF km order_refl l1 row]
  have len: "length img = length img0" using r ih(1) by simp
  have new: "\<forall>j < n. pixel (data ! k ! j) = Some (pixel_at img (k * n + j))"
    using r by simp
  have old: "pixel (data ! i ! j) = Some (pixel_at img (i * n + j))" if "i < k" "j < n" for i j
  proof -
    have "i * n + j < k * n" using that by (rule cell_index)
    then have "pixel_at img (i * n + j) = pixel_at img1 (i * n + j)" using r by simp
    then show ?thesis using ih(2) that by simp
  qed
  have rest: "pixel_at img q = pixel_at img0 q" if "Suc k * n \<le> q" for q
  proof -
    have "pixel_at img q = pixel_at img1 q" using r that by simp
    then show ?thesis using ih(3) that by simp
  qed
  show ?case using len new old rest by (auto simp: less_Suc_eq)
qed

lemma render_pixel:
  assumes "dims data m n" "render pixel data = Some bytes" "i < m" "j < n"
  shows "length bytes = m * n * BYTES_PER_PIXEL \<and>
         pixel (data ! i ! j) = Some (pixel_at bytes (i * n + j))"
proof -
  have m: "0 < m" using assms(3) by simp
  have len: "length data = m" "length (data ! 0) = n"
    using assms(1) m by (simp_all add: dims_length dims_data0)
  let ?img0 = "replicate (m * n * BYTES_PER_PIXEL) (0 :: 8 word)"
  have run: "fold (\<lambda>i. fold (\<lambda>j bytes.
                 case bytes of
                   None \<Rightarrow> None
                 | Some bytes \<Rightarrow>
                     (case pixel (data ! i ! j) of
                        None \<Rightarrow> None
                      | Some p \<Rightarrow> Some (set_pixel bytes ((i * n + j) * BYTES_PER_PIXEL) p)))
                 [0..<n]) [0..<m] (Some ?img0) = Some bytes"
    using assms(2) by (simp add: render_def len)
  have l0: "length ?img0 = m * n * BYTES_PER_PIXEL" by simp
  have "length bytes = length ?img0 \<and>
         (\<forall>i < m. \<forall>j < n. pixel (data ! i ! j) = Some (pixel_at bytes (i * n + j))) \<and>
         (\<forall>q. m * n \<le> q \<longrightarrow> pixel_at bytes q = pixel_at ?img0 q)"
    by (rule render_rows[OF order_refl l0 run])
  then show ?thesis using assms(3,4) by simp
qed

lemma create_and_save_image_pixel:
  assumes "dims data m n" "create_and_save_image data = Some bytes" "i < m" "j < n"
  shows "normalized_pixel (data ! i ! j) = Some (pixel_at bytes (i * n + j))"
  using render_pixel[OF assms(1) _ assms(3,4), of normalized_pixel bytes] assms(2)
  by (simp add: create_and_save_image_def)

lemma calculate_and_save_thickness_pixel:
  assumes "dims data m n" "calculate_and_save_thickness std_log data = Some bytes"
    and "i < m" "j < n"
  shows "map_option gray (thickness_byte std_log (data ! i ! j)) =
           Some (pixel_at bytes (i * n + j))"
  using render_pixel[OF assms(1) _ assms(3,4),
      of "\<lambda>c. map_option gray (thickness_byte std_log c)" bytes]
    assms(2)
  by (simp add: calculate_and_save_thickness_def)

subsection \<open>Rounding to binary64\<close>

lemma rne_of_int: "rne (of_int n) = n"
  by (simp add: rne_def)

lemma rne_near: "\<bar>of_int (rne z) - z\<bar> \<le> 1 / 2"
proof -
  have "of_int \<lfloor>z\<rfloor> \<le> z" "z < of_int \<lfloor>z\<rfloor> + 1" by linarith+
  then show ?thesis by (auto simp: rne_def Let_def)
qed

lemma floor_log2:
  assumes "2 powr of_int e \<le> x" "x < 2 powr (of_int e + 1)"
  shows "\<lfloor>log 2 x\<rfloor> = e"
proof -
  have x: "0 < x" using assms(1) by (smt (verit) powr_gt_zero)
  show ?thesis
  proof (rule floor_unique)
    show "of_int e \<le> log 2 x" using assms(1) x by (simp add: le_log_iff)
    show "log 2 x < of_int e + 1" using assms(2) x by (simp add: log_less_iff)
  qed
qed

lemma b64_exact:
  assumes "x = of_int n * 2 powr of_int k"
    and "2 ^ 52 \<le> \<bar>n\<bar>" "\<bar>n\<bar> < 2 ^ 53" "- 1074 \<le> k" "k \<le> 971"
  shows "b64 x = Fin x"
proof -
  have n0: "n \<noteq> 0" using assms(2) by auto
  then have x0: "x \<noteq> 0" using assms(1) by simp
  have ax: "\<bar>x\<bar> = of_int \<bar>n\<bar> * 2 powr of_int k"
    using assms(1) by (simp add: abs_mult)
  have p: "2 powr (of_int (k + 52)) = 2 powr of_int k * (2::real) ^ 52"
    by (simp add: powr_add)
  have q: "2 powr (of_int (k + 52) + 1) = 2 powr of_int k * (2::real) ^ 53"
    by (simp add: powr_add)
  have lo: "2 powr of_int (k + 52) \<le> \<bar>x\<bar>"
  proof -
    have "(2::real) ^ 52 \<le> of_int \<bar>n\<bar>" using assms(2) by (metis of_int_le_iff of_int_numeral of_int_power)
    then have "2 powr of_int k * (2::real) ^ 52 \<le> 2 powr of_int k * of_int \<bar>n\<bar>"
      by (intro mult_left_mono) simp_all
    then show ?thesis unfolding p ax by (simp add: mult.commute)
  qed
  have hi: "\<bar>x\<bar> < 2 powr (of_int (k + 52) + 1)"
  proof -
    have "of_int \<bar>n\<bar> < (2::real) ^ 53" using assms(3) by (metis of_int_less_iff of_int_numeral of_int_power)
    then have "2 powr of_int k * of_int \<bar>n\<bar> < 2 powr of_int k * (2::real) ^ 53"
      by (intro mult_strict_left_mono) simp_all
    then show ?thesis unfolding q ax by (simp add: mult.commute)
  qed
  have e: "\<lfloor>log 2 \<bar>x\<bar>\<rfloor> = k + 52" using floor_log2[OF lo hi] .
  have m: "max (k + 52) (- 1022) = k + 52" using assms(4) by simp
  have u: "2 powr (of_int (k + 52) - 52) = 2 powr (of_int k :: real)" by simp
  have d: "x / 2 powr of_int k = of_int n" using assms(1) by simp
  have "2 powr (of_int k :: real) \<le> 2 powr (of_int 971)"
    by (rule powr_mono) (use assms(5) in simp_all)
  also have "2 powr (of_int 971 :: real) = 2 ^ 971" by simp
  finally have k971: "2 powr (of_int k :: real) \<le> 2 ^ 971" .
  have "\<bar>x\<bar> < 2 ^ 53 * 2 ^ 971"
  proof -
    have "of_int \<bar>n\<bar> < (2::real) ^ 53" using assms(3) by (metis of_int_less_iff of_int_numeral of_int_power)
    moreover have "0 < 2 powr (of_int k :: real)" by simp
    ultimately have "of_int \<bar>n\<bar> * 2 powr (of_int k :: real) < 2 ^ 53 * 2 ^ 971"
      using k971 by (intro mult_less_le_imp_less) simp_all
    then show ?thesis unfolding ax .
  qed
  then have fin: "\<not> 2 ^ 1024 \<le> \<bar>x\<bar>" by (simp flip: power_add)
  show ?thesis
    using x0 fin by (simp add: b64_def e m u d rne_of_int Let_def assms(1)[symmetric])
qed

lemma b64_near:
  assumes "\<bar>x\<bar> \<le> 2 ^ 52"
  shows "\<exists>y. b64 x = Fin y \<and> \<bar>y - x\<bar> \<le> 1 / 2"
proof (cases "x = 0")
  case True
  then show ?thesis by (simp add: b64_def)
next
  case False
  define e where "e = max \<lfloor>log 2 \<bar>x\<bar>\<rfloor> (- 1022)"
  define u :: real where "u = 2 powr (of_int e - 52)"
  define y where "y = of_int (rne (x / u)) * u"
  have "log 2 \<bar>x\<bar> \<le> 52"
    using assms False by (simp add: log_le_iff)
  then have "\<lfloor>log 2 \<bar>x\<bar>\<rfloor> \<le> 52" by (simp add: floor_le_iff)
  then have e: "e \<le> 52" by (simp add: e_def)
  have u0: "0 < u" by (simp add: u_def)
  have "u \<le> 2 powr 0" unfolding u_def by (rule powr_mono) (use e in simp_all)
  then have u1: "u \<le> 1" by simp
  have "y - x = (of_int (rne (x / u)) - x / u) * u"
    using u0 by (simp add: y_def algebra_simps)
  then have "\<bar>y - x\<bar> = \<bar>of_int (rne (x / u)) - x / u\<bar> * u"
    using u0 by (simp add: abs_mult)
  also have "\<dots> \<le> 1 / 2 * 1"
    by (intro mult_mono rne_near u1) (use u0 in simp_all)
  finally have near: "\<bar>y - x\<bar> \<le> 1 / 2" by simp
  then have "\<bar>y\<bar> \<le> 2 ^ 52 + 1 / 2" using assms by linarith
  then have fin: "\<not> 2 ^ 1024 \<le> \<bar>y\<bar>" by simp
  have "b64 x = Fin y"
    using False fin by (simp add: b64_def Let_def e_def[symmetric] u_def[symmetric] y_def[symmetric])
  then show ?thesis using near by blast
qed

lemma b64_half_255: "b64 (255 / 2) = Fin (255 / 2)"
  by (rule b64_exact[where n = "255 * 2 ^ 45" and k = "- 46"]) (simp_all add: powr_neg_numeral)


lemma b64_at:
  assumes "2 powr of_int e \<le> \<bar>x\<bar>" "\<bar>x\<bar> < 2 powr (of_int e + 1)" "- 1022 \<le> e"
  shows "b64 x =
           (let u = 2 powr (of_int e - 52); y = of_int (rne (x / u)) * u
            in if 2 ^ 1024 \<le> \<bar>y\<bar> then (if 0 < x then PInf else NInf) else Fin y)"
proof -
  have "0 < \<bar>x\<bar>" using assms(1) by (smt (verit) powr_gt_zero)
  then have x0: "x \<noteq> 0" by simp
  have e: "\<lfloor>log 2 \<bar>x\<bar>\<rfloor> = e" using floor_log2[OF assms(1,2)] .
  have m: "max e (- 1022) = e" using assms(3) by simp
  show ?thesis using x0 by (simp add: b64_def e m)
qed

lemma b64_25_halves: "b64 (25 / 2) = Fin (25 / 2)"
  by (rule b64_exact[where n = "25 * 2 ^ 48" and k = "- 49"]) (simp_all add: powr_neg_numeral)


lemma b64_below_one: "b64 (1 - 1 / 2 ^ 56) = Fin 1"
proof -
  have "b64 (1 - 1 / 2 ^ 56) =
          (let u = 2 powr (of_int (- 1) - 52); y = of_int (rne ((1 - 1 / 2 ^ 56) / u)) * u
           in if 2 ^ 1024 \<le> \<bar>y\<bar> then (if 0 < (1 - 1 / 2 ^ 56 :: real) then PInf else NInf)
              else Fin y)"
    by (rule b64_at[where e = "- 1"]) (simp_all add: powr_minus_divide)
  moreover have "rne ((1 - 1 / 2 ^ 56) / (1 / 2 ^ 53)) = 2 ^ 53"
    by (simp add: rne_def)
  ultimately show ?thesis by (simp add: powr_neg_numeral)
qed

lemma fmul_Fin: "fmul (Fin x) (Fin y) = b64 (x * y)"
  by (simp add: fmul_def)

subsection \<open>The thickness byte\<close>

lemma trunc_of_int: "trunc (of_int k) = k"
  by (simp add: trunc_def)

lemma cround_clamp:
  "max 0 (min 255 (if 0 \<le> y then \<lfloor>y + 1 / 2\<rfloor> else \<lceil>y - 1 / 2\<rceil>)) = round_clamp y"
proof (cases "0 \<le> y")
  case True
  then show ?thesis by (simp add: round_clamp_def round_def)
next
  case False
  then have "\<lceil>y - 1 / 2\<rceil> \<le> 0" "round y \<le> 0"
    by (simp_all add: round_def)
  then show ?thesis using False by (simp add: round_clamp_def)
qed

lemma thickness_of_product:
  assumes "fmul (if dgt (val c) (Fin 0) then dneg (clog std_log (val c)) else Fin 10) (Fin 25) = Fin p"
    and "\<bar>p\<bar> < 2 ^ 31 - 1 / 2"
  shows "thickness_byte std_log c = Some (word_of_int (round_clamp p))"
proof -
  define k where "k = (if 0 \<le> p then \<lfloor>p + 1 / 2\<rfloor> else \<lceil>p - 1 / 2\<rceil>)"
  have kb: "- (2 ^ 31) \<le> k" "k < 2 ^ 31"
    using assms(2) unfolding k_def
    by (auto simp: le_floor_iff floor_less_iff le_ceiling_iff ceiling_less_iff)
  have "dround (Fin p) = Fin (of_int k)" by (simp add: k_def)
  then have "thickness_byte std_log c = Some (word_of_int (max 0 (min 255 k)))"
    using kb assms(1)
    by (simp add: thickness_byte_def to_int_def trunc_of_int Let_def max_def min_def)
  also have "max 0 (min 255 k) = round_clamp p"
    unfolding k_def by (rule cround_clamp)
  finally show ?thesis .
qed

lemma thickness_positive:
  assumes "val c = Fin x" "0 < x" "std_log x = Fin l" "\<bar>l * 25\<bar> < 2 ^ 31 - 1"
  shows "\<exists>p. fmul (Fin (- l)) (Fin 25) = Fin p \<and>
             thickness_byte std_log c = Some (word_of_int (round_clamp p))"
proof -
  have "\<bar>- l * 25\<bar> \<le> 2 ^ 52" using assms(4) by simp
  then obtain p where p: "b64 (- l * 25) = Fin p" "\<bar>p - (- l * 25)\<bar> \<le> 1 / 2"
    using b64_near by blast
  have pb: "\<bar>p\<bar> < 2 ^ 31 - 1 / 2" using p(2) assms(4) by (simp add: abs_if split: if_splits)
  have "fmul (if dgt (val c) (Fin 0) then dneg (clog std_log (val c)) else Fin 10) (Fin 25) = Fin p"
    using assms(1-3) p(1) by (simp add: clog_def fmul_Fin)
  then have "thickness_byte std_log c = Some (word_of_int (round_clamp p))"
    using pb by (rule thickness_of_product)
  then show ?thesis using p(1) by (simp add: fmul_Fin)
qed


lemma thickness_undefined_at_infinity:
  "val c = PInf \<Longrightarrow> thickness_byte std_log c = None"
  by (simp add: thickness_byte_def clog_def fmul_def to_int_def)

lemma thickness_at_minus_half:
  assumes "val c = Fin x" "0 < x" "std_log x = Fin (- 1 / 2)"
  shows "thickness_byte std_log c = Some 13"
proof -
  have "\<exists>p. fmul (Fin (- (- 1 / 2))) (Fin 25) = Fin p \<and>
          thickness_byte std_log c = Some (word_of_int (round_clamp p))"
    by (rule thickness_positive[where c = c and x = x and std_log = std_log and l = "- 1 / 2"])
       (use assms in simp_all)
  then obtain p where "b64 (25 / 2) = Fin p"
    and "thickness_byte std_log c = Some (word_of_int (round_clamp p))"
    by (auto simp: fmul_Fin)
  moreover have "round_clamp (25 / 2) = 13"
    by (simp add: round_clamp_def round_def)
  ultimately show ?thesis
    unfolding b64_25_halves double.inject by (metis word_of_int_numeral)
qed



subsection \<open>The pixel of the normalized image\<close>

lemma to_uchar_trunc:
  assumes "- 1 < y" "y < 256"
  shows "to_uchar (Fin y) = Some (word_of_int (trunc y))"
proof -
  have "0 \<le> trunc y \<and> trunc y \<le> 255"
    using assms by (auto simp: trunc_def le_floor_iff floor_le_iff le_ceiling_iff ceiling_le_iff)
  then show ?thesis by (simp add: to_uchar_def)
qed

text \<open>
  The product is the rounded one: for the \<open>double\<close> nearest to 1/255 the exact product
  with 255 is \<open>1 - 2^-56\<close>, the product of \<open>double\<close>s is 1, and the byte is 1.
\<close>

lemma normalized_pixel_rounded_product:
  "normalized_pixel
     \<lparr>val = Fin ((2 ^ 52 + 2 ^ 44 + 2 ^ 36 + 2 ^ 28 + 2 ^ 20 + 2 ^ 12 + 2 ^ 4) / 2 ^ 60),
      is_calibrated = False\<rparr> = Some (gray 1)"
proof -
  have "((2 ^ 52 + 2 ^ 44 + 2 ^ 36 + 2 ^ 28 + 2 ^ 20 + 2 ^ 12 + 2 ^ 4) / 2 ^ 60) * 255 =
        (1 - 1 / 2 ^ 56 :: real)"
    by simp
  then show ?thesis
    by (simp only: normalized_pixel_def fmul_Fin b64_below_one PixelData.simps)
       (simp add: to_uchar_def trunc_def gray_def)
qed

text \<open>
  Claim C4 says a cell that is not calibrated gets \<open>round(value * 255)\<close> in its three
  channels. The code converts \<open>value * 255\<close> with \<open>static_cast<unsigned char>\<close>, which
  truncates. In the result of \<open>process_data\<close> on the grid \<open>grid_half\<close> the cell in row 0,
  column 0 is not calibrated and holds 1/2 (every operation on the way is exact in
  binary64 too): the product is 127.5, its channels are 127, and \<open>round(127.5)\<close> is 128.
\<close>

theorem normalized_pixel_encoding_counterexample:
  "\<not> isl (process_data grid_half) \<and>
   \<not> is_calibrated (projr (process_data grid_half) ! 0 ! 0) \<and>
   val (projr (process_data grid_half) ! 0 ! 0) = Fin (1 / 2) \<and>
   normalized_pixel (projr (process_data grid_half) ! 0 ! 0) =
     Some \<lparr>blue = 127, green = 127, red = 127\<rparr> \<and>
   (word_of_int (round (1 / 2 * 255 :: real)) :: 8 word) = 128 \<and>
   (127 :: 8 word) \<noteq> 128"
proof -
  have d: "dims grid_half 16 51"
    by (simp add: grid_half_def dims_def list_all_length nth_Cons')
  have len: "length grid_half = 16" "length (grid_half ! 0) = 51"
    by (simp_all add: grid_half_def)
  have nth: "grid_half ! i ! j = (if i = 0 \<and> 0 < j then 2050 else 2049)"
    if "i < 16" "j < 51" for i j
    using that by (auto simp: grid_half_def nth_Cons')
  have rr: "rr grid_half j = 1" if "j < 51" for j
    by (rule rr_const)
       (use that in \<open>simp_all add: len BETA_THORNE_ROWS_COUNT_def nth bg_def SIGNAL_THRESHOLD_def\<close>)
  have ov: "ov grid_half = 1"
    by (subst ov_eval[where f = "\<lambda>j. 1"]) (simp_all add: len rr)
  have s2: "s2 grid_half 0 j = (if 0 < j then 2 else 1)" if "j < 51" for j
    using that by (simp add: s2_def rr ov nth bg_def SIGNAL_THRESHOLD_def)
  have cr: "cr grid_half 0 = 2"
    by (subst cr_eval[where f = "\<lambda>j. 2"])
       (simp_all add: len s2 BETA_THORNE_ROWS_COUNT_def MEDIAN_DETECTOR_COUNT_def)
  have cell: "projr (process_data grid_half) ! 0 ! 0 = \<lparr>val = Fin (1 / 2), is_calibrated = False\<rparr>"
    using projr_process_data(2)[OF d, of 0 0]
    by (simp add: BETA_THORNE_ROWS_COUNT_def MEDIAN_DETECTOR_COUNT_def s2 cr clamp1_Fin)
  have px: "normalized_pixel \<lparr>val = Fin (1 / 2), is_calibrated = False\<rparr> =
            Some \<lparr>blue = 127, green = 127, red = 127\<rparr>"
    by (simp add: normalized_pixel_def fmul_Fin b64_half_255 to_uchar_def trunc_def)
  have rd: "(word_of_int (round (1 / 2 * 255 :: real)) :: 8 word) = 128"
    by (simp add: round_def)
  show ?thesis
    using projr_process_data(1)[OF d, of 0 0] cell px rd
    by (simp add: BETA_THORNE_ROWS_COUNT_def MEDIAN_DETECTOR_COUNT_def)
qed

text \<open>
  Claim C4, amended. A calibrated cell is encoded as full red (red 255, green 0, blue 0)
  whatever its value. A cell that is not calibrated, whose product \<open>value * 255\<close> (the
  product of \<open>double\<close>s, rounded to binary64) is finite and lies strictly between -1 and
  256, is encoded as a gray pixel whose three channels are that product truncated toward
  zero; every value from 0 to 1 has such a product.
\<close>

theorem normalized_pixel_encoding:
  "(is_calibrated c \<longrightarrow> normalized_pixel c = Some \<lparr>blue = 0, green = 0, red = 255\<rparr>) \<and>
   (\<not> is_calibrated c \<and> fmul (val c) (Fin 255) = Fin p \<and> - 1 < p \<and> p < 256 \<longrightarrow>
      normalized_pixel c = Some (gray (word_of_int (trunc p)))) \<and>
   (\<not> is_calibrated c \<and> val c = Fin x \<and> 0 \<le> x \<and> x \<le> 1 \<longrightarrow>
      (\<exists>p. fmul (val c) (Fin 255) = Fin p \<and> - 1 < p \<and> p < 256 \<and>
           normalized_pixel c = Some (gray (word_of_int (trunc p)))))"
proof (intro conjI impI)
  assume "is_calibrated c"
  then show "normalized_pixel c = Some \<lparr>blue = 0, green = 0, red = 255\<rparr>"
    by (simp add: normalized_pixel_def)
next
  assume "\<not> is_calibrated c \<and> fmul (val c) (Fin 255) = Fin p \<and> - 1 < p \<and> p < 256"
  then show "normalized_pixel c = Some (gray (word_of_int (trunc p)))"
    by (simp add: normalized_pixel_def to_uchar_trunc gray_def)
next
  assume a: "\<not> is_calibrated c \<and> val c = Fin x \<and> 0 \<le> x \<and> x \<le> 1"
  then have "\<bar>x * 255\<bar> \<le> 2 ^ 52" by (simp add: abs_if)
  then obtain p where p: "b64 (x * 255) = Fin p" "\<bar>p - x * 255\<bar> \<le> 1 / 2"
    using b64_near by blast
  have r: "- 1 < p \<and> p < 256" using p(2) a by (simp add: abs_if split: if_splits)
  have f: "fmul (val c) (Fin 255) = Fin p" using p(1) a by (simp add: fmul_Fin)
  have "normalized_pixel c = Some (gray (word_of_int (trunc p)))"
    using a f r by (simp add: normalized_pixel_def to_uchar_trunc gray_def)
  then show "\<exists>p. fmul (val c) (Fin 255) = Fin p \<and> - 1 < p \<and> p < 256 \<and>
           normalized_pixel c = Some (gray (word_of_int (trunc p)))"
    using f r by blast
qed

theorem normalized_pixel_encoding_witness:
  "normalized_pixel \<lparr>val = Fin (1 / 2), is_calibrated = True\<rparr> =
     Some \<lparr>blue = 0, green = 0, red = 255\<rparr> \<and>
   fmul (Fin (1 / 2)) (Fin 255) = Fin (255 / 2) \<and> - 1 < (255 / 2 :: real) \<and>
   (255 / 2 :: real) < 256 \<and>
   normalized_pixel \<lparr>val = Fin (1 / 2), is_calibrated = False\<rparr> =
     Some \<lparr>blue = 127, green = 127, red = 127\<rparr>"
proof -
  have h: "fmul (Fin (1 / 2)) (Fin 255) = Fin (255 / 2)"
    by (simp add: fmul_Fin b64_half_255)
  show ?thesis
    using h
      normalized_pixel_encoding[of "\<lparr>val = Fin (1 / 2), is_calibrated = True\<rparr>"]
      normalized_pixel_encoding[of "\<lparr>val = Fin (1 / 2), is_calibrated = False\<rparr>" "255 / 2"]
    by (simp add: trunc_def gray_def)
qed

end
